theory Spec2Isabelle
  imports Main "HOL-Library.Char_ord" "HOL-Library.List_Lexorder" "HOL-Library.AList"
    "HOL-Library.Multiset" "HOL-Library.Sublist"
begin

section \<open>TurboSort of VALDToTurbo.py: the merge of Turbospectrum line lists\<close>

text \<open>
  The development embeds \<^verbatim>\<open>TurboSort\<close> (src/VALDToTurbo.py, lines 64 to 121). A text
  line is a \<^typ>\<open>string\<close>; a character stands for a code point below 256, and the order
  of characters and of strings is Python's (by code point, then lexicographic).
  Python's integers are \<^typ>\<open>int\<close>. An exception is a value of \<open>error\<close>; the while
  loop over a file may run forever (a negative count can move the position backwards),
  so it returns an \<open>option\<close>, with \<open>None\<close> for a run that never returns.
\<close>

subsection \<open>Python's built-in operations\<close>

datatype error = IndexError | ValueError | OSError

text \<open>\<^verbatim>\<open>str.isspace\<close> on the code points below 256.\<close>

definition is_space :: "char \<Rightarrow> bool" where
  "is_space c = ((of_char c :: nat) \<in> set [9, 10, 11, 12, 13, 28, 29, 30, 31, 32, 133, 160])"

definition is_digit :: "char \<Rightarrow> bool" where
  "is_digit c = (48 \<le> (of_char c :: nat) \<and> (of_char c :: nat) \<le> 57)"

definition digit_val :: "char \<Rightarrow> nat" where
  "digit_val c = of_char c - 48"

definition digit_char :: "nat \<Rightarrow> char" where
  "digit_char n = ''0123456789'' ! n"

text \<open>\<^verbatim>\<open>s.split()\<close>: the maximal runs of characters that are not whitespace.\<close>

fun split_aux :: "string \<Rightarrow> string \<Rightarrow> string list" where
  "split_aux cur [] = (if cur = [] then [] else [cur])"
| "split_aux cur (c # cs) =
     (if is_space c then (if cur = [] then split_aux [] cs else cur # split_aux [] cs)
      else split_aux (cur @ [c]) cs)"

definition split_ws :: "string \<Rightarrow> string list" where
  "split_ws s = split_aux [] s"

text \<open>\<^verbatim>\<open>xs[i]\<close>: a negative index counts from the end; out of range raises.\<close>

definition py_index :: "'a list \<Rightarrow> int \<Rightarrow> error + 'a" where
  "py_index xs i =
     (if 0 \<le> i \<and> i < int (length xs) then Inr (xs ! nat i)
      else if i < 0 \<and> - int (length xs) \<le> i then Inr (xs ! nat (i + int (length xs)))
      else Inl IndexError)"

text \<open>\<^verbatim>\<open>xs[a:b]\<close>: both bounds are clamped to the list, a negative one after adding the length.\<close>

definition clamp_bound :: "nat \<Rightarrow> int \<Rightarrow> nat" where
  "clamp_bound n a = (if a < 0 then nat (max (a + int n) 0) else min (nat a) n)"

definition py_slice :: "'a list \<Rightarrow> int \<Rightarrow> int \<Rightarrow> 'a list" where
  "py_slice xs a b =
     (let lo = clamp_bound (length xs) a; hi = clamp_bound (length xs) b
      in take (hi - lo) (drop lo xs))"

text \<open>
  \<^verbatim>\<open>int(s)\<close> in base 10: surrounding whitespace is stripped, one sign is allowed, and
  the digits may be separated by single underscores. (The interpreter's limit on the
  number of digits of a conversion is not part of the model.)
\<close>

definition strip :: "string \<Rightarrow> string" where
  "strip s = rev (dropWhile is_space (rev (dropWhile is_space s)))"

fun valid_body :: "string \<Rightarrow> bool" where
  "valid_body [] = False"
| "valid_body [c] = is_digit c"
| "valid_body (c # d # cs) =
     (is_digit c \<and> (if d = CHR ''_'' then valid_body cs else valid_body (d # cs)))"

definition digits_value :: "string \<Rightarrow> nat" where
  "digits_value s = foldl (\<lambda>acc c. 10 * acc + digit_val c) 0 (filter (\<lambda>c. c \<noteq> CHR ''_'') s)"

definition py_int :: "string \<Rightarrow> error + int" where
  "py_int s =
     (case strip s of
        [] \<Rightarrow> Inl ValueError
      | c # cs \<Rightarrow>
          if c = CHR ''-'' then
            (if valid_body cs then Inr (- int (digits_value cs)) else Inl ValueError)
          else if c = CHR ''+'' then
            (if valid_body cs then Inr (int (digits_value cs)) else Inl ValueError)
          else
            (if valid_body (c # cs) then Inr (int (digits_value (c # cs))) else Inl ValueError))"

text \<open>\<^verbatim>\<open>str(n)\<close> of an integer: the decimal digits, after a minus sign when negative.\<close>

fun digits :: "nat \<Rightarrow> string" where
  "digits n = (if n < 10 then [digit_char n] else digits (n div 10) @ [digit_char (n mod 10)])"

declare digits.simps [simp del]

definition py_str :: "int \<Rightarrow> string" where
  "py_str i = (if i < 0 then CHR ''-'' # digits (nat (- i)) else digits (nat i))"

text \<open>
  \<^verbatim>\<open>s.replace(old, new)\<close>: every occurrence of \<open>old\<close>, found from the left and
  without overlap, becomes \<open>new\<close>; for an empty \<open>old\<close>, \<open>new\<close> goes before every
  character and at the end.
\<close>

function replace :: "string \<Rightarrow> string \<Rightarrow> string \<Rightarrow> string" where
  "replace [] old new = (if old = [] then new else [])"
| "replace (c # cs) old new =
     (if old = [] then new @ c # replace cs old new
      else if prefix old (c # cs) then new @ replace (drop (length old) (c # cs)) old new
      else c # replace cs old new)"
  by pat_completeness auto
termination
  by (relation "measure (\<lambda>(s, old, new). length s)") auto

declare replace.simps [simp del]

subsection \<open>One block of a file (lines 78 to 84)\<close>

text \<open>\<^verbatim>\<open>int(header.split()[4])\<close>\<close>

definition declared_count :: "string \<Rightarrow> error + int" where
  "declared_count header =
     (case py_index (split_ws header) 4 of Inl e \<Rightarrow> Inl e | Inr tok \<Rightarrow> py_int tok)"

text \<open>
  A block as it is read: header, element line, declared count and the data lines taken.
  \<open>read_block\<close> also returns the next value of \<^verbatim>\<open>file_line\<close>.
\<close>

type_synonym block = "string \<times> string \<times> int \<times> string list"

definition read_block :: "string list \<Rightarrow> int \<Rightarrow> error + (block \<times> int)" where
  "read_block lines file_line =
     (let line_index = file_line - 1 in
      case py_index lines line_index of Inl e \<Rightarrow> Inl e | Inr header \<Rightarrow>
      (case py_index lines (line_index + 1) of Inl e \<Rightarrow> Inl e | Inr atomic_sym \<Rightarrow>
      (case declared_count header of Inl e \<Rightarrow> Inl e | Inr atomic_lines \<Rightarrow>
         (let start = line_index + 2;
              end = start + atomic_lines;
              splice' = py_slice lines start end
          in Inr ((header, atomic_sym, atomic_lines, splice'), end + 1)))))"

subsection \<open>The accumulator (lines 85 to 108)\<close>

text \<open>
  \<^verbatim>\<open>atom_dict\<close> keeps its keys in the order of their first insertion, which is the order
  of \<^verbatim>\<open>atom_dict.values()\<close>: an association list, assigned to with \<^const>\<open>AList.update\<close>.
  Its values are Python lists \<^verbatim>\<open>[header, atomic_sym, line, ...]\<close>.
\<close>

type_synonym atom_dict = "(string \<times> string list) list"

text \<open>Lines 90 to 98: the remainder of the header brought to ten characters.\<close>

definition justify10 :: "string \<Rightarrow> string" where
  "justify10 end_line_updated =
     (if length end_line_updated > 10
        then drop (length end_line_updated - 10) end_line_updated
      else if length end_line_updated < 10
        then replicate (10 - length end_line_updated) CHR '' '' @ end_line_updated
      else end_line_updated)"

text \<open>Lines 88 to 98: the header of the stored block, rebuilt for the new count.\<close>

definition rebuild_header :: "string \<Rightarrow> int \<Rightarrow> int \<Rightarrow> string" where
  "rebuild_header stored atomic_lines_previous atomic_lines =
     (let start_line = take 27 stored;
          end_line_previous = drop 27 stored;
          end_line_updated =
            replace end_line_previous (py_str atomic_lines_previous) (py_str atomic_lines)
      in start_line @ justify10 end_line_updated)"

definition store_block :: "atom_dict \<Rightarrow> block \<Rightarrow> error + atom_dict" where
  "store_block d b =
     (case b of (header, atomic_sym, atomic_lines, splice') \<Rightarrow>
      (case map_of d atomic_sym of
         None \<Rightarrow> Inr (AList.update atomic_sym (header # atomic_sym # splice') d)
       | Some val \<Rightarrow>
           (case py_index val 0 of Inl e \<Rightarrow> Inl e | Inr stored \<Rightarrow>
           (case declared_count stored of Inl e \<Rightarrow> Inl e | Inr atomic_lines_previous \<Rightarrow>
              (let atomic_lines' = atomic_lines + atomic_lines_previous;
                   val1 = val[0 := rebuild_header stored atomic_lines_previous atomic_lines'];
                   val2 = val1 @ splice';
                   temp = sort (drop 2 val2)
               in Inr (AList.update atomic_sym (take 2 val2 @ temp) d))))))"

subsection \<open>The walk over one file (lines 74 to 108)\<close>

partial_function (option) walk :: "string list \<Rightarrow> int \<Rightarrow> atom_dict \<Rightarrow> (error + atom_dict) option"
  where
  "walk lines file_line d =
     (if file_line < int (length lines) then
        (case read_block lines file_line of
           Inl e \<Rightarrow> Some (Inl e)
         | Inr (b, file_line') \<Rightarrow>
             (case store_block d b of
                Inl e \<Rightarrow> Some (Inl e)
              | Inr d' \<Rightarrow> walk lines file_line' d'))
      else Some (Inr d))"

declare walk.simps [code]

subsection \<open>Files (lines 73 to 76 and 119 to 121)\<close>

text \<open>
  A file system says which file a path stands for (\<open>locate\<close>: two paths of the same
  file, such as \<^verbatim>\<open>d/a\<close> and \<^verbatim>\<open>./d/a\<close>, give the same value, and a path that stands for no
  place where a file can be, such as a path through a missing directory, gives
  \<open>None\<close>), the decoded text of every file that exists (\<open>files\<close>), and the places that
  may be opened for writing (\<open>writable\<close>: not a directory, not a read-only file). The
  files are named by values of any type \<open>'f\<close>.

  \<^verbatim>\<open>open(path, "r")\<close> raises \<open>OSError\<close> when the path stands for no file that exists.
  \<^verbatim>\<open>open(path, "w")\<close> raises \<open>OSError\<close> when the path stands for no place or for one that
  may not be written, and then changes nothing; otherwise the file there is created or
  emptied, and the writes of lines 120 and 121 and the closing of the file are taken to
  succeed. Text mode reads every line ending as a newline, and on Linux writes a newline
  as it is. The result of \<^verbatim>\<open>os.listdir(input_folder)\<close> is the parameter \<open>listing\<close>.
\<close>

record 'f filesystem =
  locate :: "string \<Rightarrow> 'f option"
  files :: "'f \<Rightarrow> string option"
  writable :: "'f \<Rightarrow> bool"

definition open_read :: "'f filesystem \<Rightarrow> string \<Rightarrow> string option" where
  "open_read fs path = (case locate fs path of None \<Rightarrow> None | Some i \<Rightarrow> files fs i)"

text \<open>Lines 119 to 121: the output file opened for writing and written.\<close>

definition write_file ::
  "'f filesystem \<Rightarrow> string \<Rightarrow> string \<Rightarrow> (error + unit) \<times> 'f filesystem" where
  "write_file fs path contents =
     (case locate fs path of
        None \<Rightarrow> (Inl OSError, fs)
      | Some i \<Rightarrow>
          if writable fs i then (Inr (), fs\<lparr>files := (files fs)(i \<mapsto> contents)\<rparr>)
          else (Inl OSError, fs))"

text \<open>
  The file system in which every path string stands for a file of its own that may be
  written, with the texts \<open>m\<close>; it serves for concrete inputs.
\<close>

definition plain :: "(string \<Rightarrow> string option) \<Rightarrow> string filesystem" where
  "plain m = \<lparr>locate = Some, files = m, writable = (\<lambda>i. True)\<rparr>"

fun universal_newlines :: "string \<Rightarrow> string" where
  "universal_newlines [] = []"
| "universal_newlines [c] = (if c = CHR 0x0D then [CHR 0x0A] else [c])"
| "universal_newlines (c # d # cs) =
     (if c = CHR 0x0D then
        (if d = CHR 0x0A then CHR 0x0A # universal_newlines cs
         else CHR 0x0A # universal_newlines (d # cs))
      else c # universal_newlines (d # cs))"

fun lines_aux :: "string \<Rightarrow> string \<Rightarrow> string list" where
  "lines_aux cur [] = (if cur = [] then [] else [cur])"
| "lines_aux cur (c # cs) =
     (if c = CHR 0x0A then (cur @ [c]) # lines_aux [] cs else lines_aux (cur @ [c]) cs)"

definition readlines :: "string \<Rightarrow> string list" where
  "readlines text = lines_aux [] (universal_newlines text)"

text \<open>\<^verbatim>\<open>os.path.join\<close> of two components (posixpath).\<close>

definition path_join :: "string \<Rightarrow> string \<Rightarrow> string" where
  "path_join a p =
     (if p \<noteq> [] \<and> hd p = CHR ''/'' then p
      else if a = [] \<or> last a = CHR ''/'' then a @ p
      else a @ ''/'' @ p)"

text \<open>The loop of line 73 over the listing.\<close>

fun read_all ::
  "'f filesystem \<Rightarrow> string \<Rightarrow> string list \<Rightarrow> atom_dict \<Rightarrow> (error + atom_dict) option"
  where
  "read_all fs input_folder [] d = Some (Inr d)"
| "read_all fs input_folder (linelist # rest) d =
     (case open_read fs (path_join input_folder linelist) of
        None \<Rightarrow> Some (Inl OSError)
      | Some text \<Rightarrow>
          (case walk (readlines text) 1 d of
             None \<Rightarrow> None
           | Some (Inl e) \<Rightarrow> Some (Inl e)
           | Some (Inr d') \<Rightarrow> read_all fs input_folder rest d'))"

text \<open>
  Lines 111 to 117: the blocks sorted as lists of strings, then flattened. (The loop of
  lines 112 and 113 joins each block and drops the result: it changes nothing.)
\<close>

definition output_lines :: "atom_dict \<Rightarrow> string list" where
  "output_lines d = concat (sort (map snd d))"

text \<open>
  \<open>TurboSort\<close> returns how the call ended (\<open>Inl\<close> the exception raised) and the file
  system it leaves. The output file is opened only after every input file is read.
\<close>

definition TurboSort ::
  "'f filesystem \<Rightarrow> string list \<Rightarrow> string \<Rightarrow> string \<Rightarrow>
     ((error + unit) \<times> 'f filesystem) option" where
  "TurboSort fs listing input_folder output_file =
     (case read_all fs input_folder listing [] of
        None \<Rightarrow> None
      | Some (Inl e) \<Rightarrow> Some (Inl e, fs)
      | Some (Inr d) \<Rightarrow> Some (write_file fs output_file (concat (output_lines d))))"


subsection \<open>The blocks a walk reads\<close>

text \<open>
  The position of the walk depends on the lines only, not on the accumulator:
  \<open>reads lines i bs j\<close> holds when the loop, started with \<^verbatim>\<open>file_line\<close> \<open>i\<close>, reads the
  blocks \<open>bs\<close> one after the other and arrives at \<^verbatim>\<open>file_line\<close> \<open>j\<close>.
\<close>

inductive reads :: "string list \<Rightarrow> int \<Rightarrow> block list \<Rightarrow> int \<Rightarrow> bool" for lines where
  reads_done: "reads lines file_line [] file_line"
| reads_step:
    "file_line < int (length lines) \<Longrightarrow>
     read_block lines file_line = Inr (b, file_line') \<Longrightarrow>
     reads lines file_line' bs file_line'' \<Longrightarrow>
     reads lines file_line (b # bs) file_line''"

code_pred reads .

text \<open>The blocks stored one after the other; the first failure ends the run.\<close>

fun store_all :: "atom_dict \<Rightarrow> block list \<Rightarrow> error + atom_dict" where
  "store_all d [] = Inr d"
| "store_all d (b # bs) =
     (case store_block d b of Inl e \<Rightarrow> Inl e | Inr d' \<Rightarrow> store_all d' bs)"

text \<open>
  \<open>dir_blocks fs input_folder listing bs\<close>: every listed file is there and is walked to
  its end, and \<open>bs\<close> are the blocks read, file after file.
\<close>

inductive dir_blocks :: "'f filesystem \<Rightarrow> string \<Rightarrow> string list \<Rightarrow> block list \<Rightarrow> bool"
  for fs input_folder where
  dir_done: "dir_blocks fs input_folder [] []"
| dir_step:
    "open_read fs (path_join input_folder linelist) = Some text \<Longrightarrow>
     reads (readlines text) 1 bs file_line \<Longrightarrow>
     \<not> file_line < int (length (readlines text)) \<Longrightarrow>
     dir_blocks fs input_folder rest bs' \<Longrightarrow>
     dir_blocks fs input_folder (linelist # rest) (bs @ bs')"

code_pred dir_blocks .

text \<open>The parts of a block and of a stored entry.\<close>

definition block_key :: "block \<Rightarrow> string" where
  "block_key b = (case b of (header, atomic_sym, atomic_lines, splice') \<Rightarrow> atomic_sym)"

definition block_data :: "block \<Rightarrow> string list" where
  "block_data b = (case b of (header, atomic_sym, atomic_lines, splice') \<Rightarrow> splice')"

definition block_entry :: "block \<Rightarrow> string list" where
  "block_entry b = (case b of (header, atomic_sym, atomic_lines, splice') \<Rightarrow>
     header # atomic_sym # splice')"

definition data_lines :: "atom_dict \<Rightarrow> string list" where
  "data_lines d = concat (map (\<lambda>(k, val). drop 2 val) d)"

text \<open>
  What every entry of the accumulator looks like during a run: a list of at least two
  lines whose second line is the key, under keys that are all different.
\<close>

definition entry_ok :: "string \<times> string list \<Rightarrow> bool" where
  "entry_ok e = (case e of (k, val) \<Rightarrow> 2 \<le> length val \<and> val ! 1 = k)"

definition dict_ok :: "atom_dict \<Rightarrow> bool" where
  "dict_ok d = (distinct (map fst d) \<and> list_all entry_ok d)"

text \<open>
  The layout of a header as the formatting program writes it: 27 characters that hold
  the first four tokens, then the count printed as \<^verbatim>\<open>str\<close> prints it, after blanks (at
  least one, unless the 27 characters end in whitespace), then the newline.
  \<open>std_header h c\<close> says that \<open>h\<close> has this layout with the count \<open>c\<close>.
\<close>

definition std_header :: "string \<Rightarrow> int \<Rightarrow> bool" where
  "std_header h c =
     (let p = take 27 h; r = drop 27 h; body = dropWhile (\<lambda>x. x = CHR '' '') r
      in length p = 27 \<and> length (split_ws p) = 4 \<and> (body \<noteq> r \<or> is_space (last p)) \<and>
         body = py_str c @ [CHR 0x0A])"

text \<open>A block read with such a header and with as many data lines as it declares.\<close>

definition good_block :: "block \<Rightarrow> bool" where
  "good_block b = (case b of (header, atomic_sym, atomic_lines, splice') \<Rightarrow>
     std_header header atomic_lines \<and> int (length splice') = atomic_lines)"

text \<open>
  An accumulator in which every entry has such a header, declaring as many data lines
  as the entry holds.
\<close>

definition entry_consistent :: "string \<times> string list \<Rightarrow> bool" where
  "entry_consistent e = (case e of (k, val) \<Rightarrow>
     2 \<le> length val \<and> val ! 1 = k \<and> std_header (val ! 0) (int (length (drop 2 val))))"

definition consistent :: "atom_dict \<Rightarrow> bool" where
  "consistent d = (distinct (map fst d) \<and> list_all entry_consistent d)"


section \<open>Facts about the built-in operations\<close>

lemma is_digit_not_space: "is_digit c \<Longrightarrow> \<not> is_space c"
  by (auto simp: is_digit_def is_space_def)

lemma split_aux_nospace:
  "\<forall>c\<in>set w. \<not> is_space c \<Longrightarrow> split_aux cur (w @ s) = split_aux (cur @ w) s"
  by (induction w arbitrary: cur) auto

lemma split_aux_sep:
  "is_space c \<Longrightarrow> split_aux cur (xs @ c # ys) = split_aux cur xs @ split_aux [] ys"
  by (induction xs arbitrary: cur) auto

lemma split_ws_sep: "is_space c \<Longrightarrow> split_ws (xs @ c # ys) = split_ws xs @ split_ws ys"
  by (simp add: split_ws_def split_aux_sep)

lemma split_ws_Nil: "split_ws [] = []"
  by (simp add: split_ws_def)

lemma split_ws_space_Cons: "is_space c \<Longrightarrow> split_ws (c # s) = split_ws s"
  by (simp add: split_ws_def)

lemma is_space_blank: "is_space CHR '' ''"
  by (simp add: is_space_def)

lemma is_space_newline: "is_space CHR 0x0A"
  by (simp add: is_space_def)

lemma split_ws_blanks: "split_ws (replicate a CHR '' '' @ s) = split_ws s"
  by (induction a) (simp_all add: split_ws_space_Cons is_space_blank)

lemma split_ws_token: "w \<noteq> [] \<Longrightarrow> \<forall>c\<in>set w. \<not> is_space c \<Longrightarrow> split_ws w = [w]"
  using split_aux_nospace [of w "[]" "[]"] by (simp add: split_ws_def)

lemma split_ws_all_space: "\<forall>c\<in>set t. is_space c \<Longrightarrow> split_ws t = []"
  by (induction t) (simp_all add: split_ws_Nil split_ws_space_Cons)

lemma split_ws_token_tail:
  assumes "w \<noteq> []" "\<forall>c\<in>set w. \<not> is_space c" "\<forall>c\<in>set t. is_space c"
  shows "split_ws (w @ t) = [w]"
proof (cases t)
  case Nil
  with assms show ?thesis by (simp add: split_ws_token)
next
  case (Cons c t')
  with assms have "is_space c" "\<forall>c\<in>set t'. is_space c" by auto
  then show ?thesis
    using assms Cons by (simp add: split_ws_sep split_ws_token split_ws_all_space)
qed

lemma digit_char_is_digit: "n < 10 \<Longrightarrow> is_digit (digit_char n)"
proof -
  assume "n < 10"
  then have "n \<in> {0,1,2,3,4,5,6,7,8,9}" by auto
  then show ?thesis by (auto simp: is_digit_def digit_char_def)
qed

lemma digit_val_digit_char: "n < 10 \<Longrightarrow> digit_val (digit_char n) = n"
proof -
  assume "n < 10"
  then have "n \<in> {0,1,2,3,4,5,6,7,8,9}" by auto
  then show ?thesis by (auto simp: digit_val_def digit_char_def)
qed

lemma digits_nonempty: "digits n \<noteq> []"
  by (subst digits.simps) simp

lemma digits_all_digit: "c \<in> set (digits n) \<Longrightarrow> is_digit c"
proof (induction n arbitrary: c rule: digits.induct)
  case (1 n)
  show ?case
  proof (cases "n < 10")
    case True
    with "1.prems" show ?thesis
      by (subst (asm) digits.simps) (simp add: digit_char_is_digit)
  next
    case False
    with "1.prems" have "c \<in> set (digits (n div 10)) \<or> c = digit_char (n mod 10)"
      by (subst (asm) digits.simps) auto
    with False "1.IH" show ?thesis
      by (auto simp: digit_char_is_digit)
  qed
qed

lemma is_digit_not_underscore: "is_digit c \<Longrightarrow> c \<noteq> CHR ''_''"
  by (auto simp: is_digit_def)

lemma valid_body_digits: "s \<noteq> [] \<Longrightarrow> \<forall>c\<in>set s. is_digit c \<Longrightarrow> valid_body s"
  by (induction s rule: valid_body.induct) (auto simp: is_digit_not_underscore)

lemma digits_value_snoc:
  "c \<noteq> CHR ''_'' \<Longrightarrow> digits_value (s @ [c]) = 10 * digits_value s + digit_val c"
  by (simp add: digits_value_def)

lemma digits_value_digits: "digits_value (digits n) = n"
proof (induction n rule: digits.induct)
  case (1 n)
  show ?case
  proof (cases "n < 10")
    case True
    then have "digits n = [digit_char n]" by (subst digits.simps) simp
    with True show ?thesis
      by (simp add: digits_value_def digit_val_digit_char is_digit_not_underscore
          digit_char_is_digit)
  next
    case False
    then have eq: "digits n = digits (n div 10) @ [digit_char (n mod 10)]"
      by (subst digits.simps) simp
    have "digit_char (n mod 10) \<noteq> CHR ''_''"
      by (simp add: is_digit_not_underscore digit_char_is_digit)
    with False "1.IH" show ?thesis
      by (simp add: eq digits_value_snoc digit_val_digit_char)
  qed
qed

lemma strip_id: "s \<noteq> [] \<Longrightarrow> \<not> is_space (hd s) \<Longrightarrow> \<not> is_space (last s) \<Longrightarrow> strip s = s"
proof -
  assume a: "s \<noteq> []" "\<not> is_space (hd s)" "\<not> is_space (last s)"
  then have "dropWhile is_space s = s" by (cases s) auto
  moreover from a have "dropWhile is_space (rev s) = rev s"
    by (cases "rev s") (auto simp: last_rev hd_rev)
  ultimately show ?thesis by (simp add: strip_def)
qed

lemma py_int_digits: "py_int (digits n) = Inr (int n)"
proof -
  obtain c cs where eq: "digits n = c # cs" using digits_nonempty [of n] by (cases "digits n") auto
  have dig: "\<forall>x\<in>set (digits n). is_digit x" using digits_all_digit by blast
  then have "is_digit c" "is_digit (last (digits n))" using eq digits_nonempty [of n] by auto
  then have "strip (digits n) = digits n" "c \<noteq> CHR ''-''" "c \<noteq> CHR ''+''"
    using eq by (auto simp: strip_id is_digit_not_space is_digit_def)
  moreover have "valid_body (digits n)" using dig digits_nonempty by (rule_tac valid_body_digits) auto
  ultimately show ?thesis
    using eq digits_value_digits [of n] by (simp add: py_int_def)
qed

lemma py_int_py_str: "py_int (py_str i) = Inr i"
proof (cases "i < 0")
  case False
  then show ?thesis by (simp add: py_str_def py_int_digits)
next
  case True
  let ?ds = "digits (nat (- i))"
  have dig: "\<forall>x\<in>set ?ds. is_digit x" using digits_all_digit by blast
  have ne: "?ds \<noteq> []" by (rule digits_nonempty)
  then have "is_digit (last ?ds)" using dig by auto
  then have "\<not> is_space (last ?ds)" by (rule is_digit_not_space)
  moreover have "\<not> is_space CHR ''-''" by (simp add: is_space_def)
  ultimately have "\<not> is_space (last (CHR ''-'' # ?ds))" "\<not> is_space (hd (CHR ''-'' # ?ds))"
    using ne by simp_all
  then have "strip (CHR ''-'' # ?ds) = CHR ''-'' # ?ds"
    by (intro strip_id) simp_all
  moreover have "valid_body ?ds" using dig ne by (rule_tac valid_body_digits) auto
  ultimately show ?thesis
    using True by (simp add: py_str_def py_int_def digits_value_digits)
qed

lemma py_str_nonempty: "py_str i \<noteq> []"
  by (simp add: py_str_def digits_nonempty)

lemma py_str_no_space: "c \<in> set (py_str i) \<Longrightarrow> \<not> is_space c"
proof -
  assume "c \<in> set (py_str i)"
  then have "c = CHR ''-'' \<or> is_digit c"
    by (auto simp: py_str_def dest: digits_all_digit split: if_splits)
  then show ?thesis
    by (auto simp: is_digit_not_space) (simp add: is_space_def)
qed

lemma length_digits_le: "n < 10 ^ k \<Longrightarrow> 0 < k \<Longrightarrow> length (digits n) \<le> k"
proof (induction n arbitrary: k rule: digits.induct)
  case (1 n)
  show ?case
  proof (cases "n < 10")
    case True
    then have "digits n = [digit_char n]" by (subst digits.simps) simp
    with "1.prems" show ?thesis by simp
  next
    case False
    then have eq: "digits n = digits (n div 10) @ [digit_char (n mod 10)]"
      by (subst digits.simps) simp
    from False "1.prems" obtain k' where k: "k = Suc k'" by (cases k) auto
    with False "1.prems" have "0 < k'" by (cases k') auto
    moreover from "1.prems" k have "n div 10 < 10 ^ k'" by auto
    ultimately have "length (digits (n div 10)) \<le> k'" using "1.IH" False by blast
    with eq k show ?thesis by simp
  qed
qed

lemma replace_Nil: "old \<noteq> [] \<Longrightarrow> replace [] old new = []"
  by (simp add: replace.simps)

lemma replace_skip:
  "old \<noteq> [] \<Longrightarrow> \<not> prefix old (c # cs) \<Longrightarrow> replace (c # cs) old new = c # replace cs old new"
  by (simp add: replace.simps)

lemma replace_prefix:
  assumes "old \<noteq> []"
  shows "replace (old @ rest) old new = new @ replace rest old new"
proof -
  obtain c cs where "old @ rest = c # cs" using assms by (cases old) auto
  moreover have "prefix old (old @ rest)" by simp
  ultimately show ?thesis
    using assms by (metis replace.simps(2) append_eq_conv_conj)
qed

lemma replace_none: "\<not> sublist old s \<Longrightarrow> replace s old new = s"
proof (induction s)
  case Nil
  then have "old \<noteq> []" by auto
  then show ?case by (simp add: replace_Nil)
next
  case (Cons c s)
  then have ne: "old \<noteq> []" by auto
  from Cons.prems have "\<not> prefix old (c # s)" "\<not> sublist old s"
    by (auto simp: sublist_Cons_right)
  with Cons.IH ne show ?case by (simp add: replace_skip)
qed

lemma take_append_le: "n \<le> length xs \<Longrightarrow> take n (xs @ ys) = take n xs"
  by simp

lemma replace_first:
  assumes "old \<noteq> []" and "\<not> sublist old (a @ butlast old)"
  shows "replace (a @ old @ b) old new = a @ new @ replace b old new"
  using assms(2)
proof (induction a)
  case Nil
  show ?case using assms(1) by (simp add: replace_prefix)
next
  case (Cons c a)
  have "\<not> prefix old (c # a @ old @ b)"
  proof
    assume "prefix old (c # a @ old @ b)"
    then have "old = take (length old) ((c # a) @ old @ b)"
      by (metis append_Cons append_eq_conv_conj prefix_def)
    also have "\<dots> = take (length old) (((c # a) @ butlast old) @ (last old # b))"
    proof -
      have "old = butlast old @ [last old]" using assms(1) by simp
      then have "(c # a) @ old @ b = ((c # a) @ butlast old) @ (last old # b)"
        by (metis append.assoc append_Cons append_Nil)
      then show ?thesis by (rule arg_cong)
    qed
    also have "\<dots> = take (length old) ((c # a) @ butlast old)"
    proof -
      have "length old \<le> length ((c # a) @ butlast old)" by simp
      then show ?thesis by (rule take_append_le)
    qed
    finally have "prefix old ((c # a) @ butlast old)"
      by (metis take_is_prefix)
    with Cons.prems show False by auto
  qed
  moreover from Cons.prems have "\<not> sublist old (a @ butlast old)"
    by (auto simp: sublist_Cons_right)
  ultimately show ?case
    using Cons.IH assms(1) by (simp add: replace_skip)
qed

lemma replace_fill:
  assumes "old \<noteq> []" and "hd old \<noteq> c"
  shows "replace (replicate a c @ rest) old new = replicate a c @ replace rest old new"
proof (induction a)
  case 0
  show ?case by simp
next
  case (Suc a)
  have "\<not> prefix old (c # replicate a c @ rest)"
    using assms by (cases old) auto
  with Suc assms(1) show ?case by (simp add: replace_skip)
qed

lemma justify10_length: "length (justify10 r) = 10"
  by (simp add: justify10_def)

lemma store_block_new:
  "map_of d k = None \<Longrightarrow>
   store_block d (hdr, k, n, sp) = Inr (AList.update k (hdr # k # sp) d)"
  by (simp add: store_block_def)

lemma store_block_merge:
  assumes "map_of d k = Some (h # k' # ls)" and "declared_count h = Inr prev"
  shows "store_block d (hdr, k, n, sp) =
         Inr (AList.update k (rebuild_header h prev (n + prev) # k' # sort (ls @ sp)) d)"
  using assms by (simp add: store_block_def py_index_def Let_def)

lemma rebuild_header_eq:
  "rebuild_header stored previous new_count =
     take 27 stored @ justify10 (replace (drop 27 stored) (py_str previous) (py_str new_count))"
  by (simp add: rebuild_header_def Let_def)

lemma py_str_hd_not_blank: "hd (py_str i) \<noteq> CHR '' ''"
proof -
  have "hd (py_str i) \<in> set (py_str i)" using py_str_nonempty by simp
  then have "\<not> is_space (hd (py_str i))" by (rule py_str_no_space)
  then show ?thesis using is_space_blank by auto
qed

lemma replace_count_field:
  assumes "\<not> sublist (py_str previous) tail"
  shows "replace (replicate a CHR '' '' @ py_str previous @ tail) (py_str previous) new =
         replicate a CHR '' '' @ new @ tail"
  using assms
  by (simp add: replace_fill py_str_nonempty py_str_hd_not_blank replace_prefix replace_none)

text \<open>The loop, one iteration at a time.\<close>

lemma walk_step:
  "file_line < int (length lines) \<Longrightarrow> read_block lines file_line = Inr (b, file_line') \<Longrightarrow>
   store_block d b = Inr d' \<Longrightarrow> walk lines file_line d = walk lines file_line' d'"
  by (subst walk.simps) simp

lemma walk_stop: "\<not> file_line < int (length lines) \<Longrightarrow> walk lines file_line d = Some (Inr d)"
  by (subst walk.simps) simp

lemma walk_read_error:
  "file_line < int (length lines) \<Longrightarrow> read_block lines file_line = Inl e \<Longrightarrow>
   walk lines file_line d = Some (Inl e)"
  by (subst walk.simps) simp

lemma walk_store_error:
  "file_line < int (length lines) \<Longrightarrow> read_block lines file_line = Inr (b, file_line') \<Longrightarrow>
   store_block d b = Inl e \<Longrightarrow> walk lines file_line d = Some (Inl e)"
  by (subst walk.simps) simp

text \<open>Reading and writing in a plain file system.\<close>

lemma open_read_plain: "open_read (plain m) path = m path"
  by (simp add: open_read_def plain_def)

lemma write_file_plain: "write_file (plain m) path contents = (Inr (), plain (m(path \<mapsto> contents)))"
  by (simp add: write_file_def plain_def)

text \<open>Definitions unfolded when a concrete header is parsed or a count is printed.\<close>

lemmas parse_defs = declared_count_def split_ws_def is_space_def py_index_def py_int_def strip_def
  is_digit_def digits_value_def digit_val_def

lemmas str_defs = py_str_def digits.simps digit_char_def

lemma py_slice_to_end:
  "0 \<le> a \<Longrightarrow> a \<le> int (length xs) \<Longrightarrow> int (length xs) \<le> b \<Longrightarrow>
   py_slice xs a b = drop (nat a) xs"
proof -
  assume a: "0 \<le> a" "a \<le> int (length xs)" "int (length xs) \<le> b"
  then have "nat a \<le> length xs" "length xs \<le> nat b" "\<not> a < 0" "\<not> b < 0" by simp_all
  then show ?thesis
    by (simp add: py_slice_def clamp_bound_def min_def)
qed


section \<open>The merge of two blocks with the same element line\<close>

text \<open>
  C3. When a block is read whose element line is already in the accumulator, and the
  count of the stored header parses, the merge succeeds and the data lines of the entry
  become the sorted list of all of them: the lines stored before followed by the lines
  just read are sorted as one list, whether or not the stored lines were sorted.
\<close>

theorem merged_lines_sorted:
  assumes "map_of d atomic_sym = Some (stored # k # ls)"
    and "declared_count stored = Inr previous"
  shows "\<exists>d' header'.
           store_block d (header, atomic_sym, atomic_lines, sp) = Inr d' \<and>
           map_of d' atomic_sym = Some (header' # k # sort (ls @ sp)) \<and>
           sorted (sort (ls @ sp)) \<and>
           mset (sort (ls @ sp)) = mset ls + mset sp"
  using assms by (simp add: store_block_merge update_conv')

theorem merged_lines_sorted_witness:
  "map_of [(''Fe I\<newline>'', [''x 26.0000 y               1         2\<newline>'', ''Fe I\<newline>'',
                          ''b\<newline>'', ''a\<newline>''])] ''Fe I\<newline>''
     = Some (''x 26.0000 y               1         2\<newline>'' # ''Fe I\<newline>'' # [''b\<newline>'', ''a\<newline>'']) \<and>
   declared_count ''x 26.0000 y               1         2\<newline>'' = Inr 2 \<and>
   (\<exists>d' header'.
      store_block [(''Fe I\<newline>'', [''x 26.0000 y               1         2\<newline>'', ''Fe I\<newline>'',
                                ''b\<newline>'', ''a\<newline>''])]
        (''x 26.0000 y               1         1\<newline>'', ''Fe I\<newline>'', 1, [''c\<newline>'']) = Inr d' \<and>
      map_of d' ''Fe I\<newline>'' = Some (header' # ''Fe I\<newline>'' # sort ([''b\<newline>'', ''a\<newline>''] @ [''c\<newline>''])) \<and>
      sorted (sort ([''b\<newline>'', ''a\<newline>''] @ [''c\<newline>''])) \<and>
      mset (sort ([''b\<newline>'', ''a\<newline>''] @ [''c\<newline>''])) = mset [''b\<newline>'', ''a\<newline>''] + mset [''c\<newline>''])"
proof -
  have a: "map_of [(''Fe I\<newline>'', [''x 26.0000 y               1         2\<newline>'', ''Fe I\<newline>'',
                          ''b\<newline>'', ''a\<newline>''])] ''Fe I\<newline>''
     = Some (''x 26.0000 y               1         2\<newline>'' # ''Fe I\<newline>'' # [''b\<newline>'', ''a\<newline>''])"
    by simp
  have b: "declared_count ''x 26.0000 y               1         2\<newline>'' = Inr 2"
    by code_simp
  show ?thesis
    using a b merged_lines_sorted [OF a b] by blast
qed


text \<open>
  C2 (as amended). The rebuilt header is the first 27 characters of the stored header
  followed by a field of exactly ten characters. The field comes from the remainder of
  the stored header with the new count substituted: its last ten characters when it is
  longer than ten, the remainder after enough blanks when it is shorter, the remainder
  itself otherwise. When the stored remainder is blanks, the old count and a rest of
  the line (the newline) in which the old count does not occur, and the new count with
  that rest has ten characters or more, the field is the last ten characters of the new
  count followed by the rest of the line: the line ending takes one of the ten places.
\<close>

theorem rebuilt_header_shape:
  "\<exists>field.
     rebuild_header stored previous new_count = take 27 stored @ field \<and>
     length field = 10 \<and>
     (let r = replace (drop 27 stored) (py_str previous) (py_str new_count) in
        (10 < length r \<longrightarrow> field = drop (length r - 10) r) \<and>
        (length r < 10 \<longrightarrow> field = replicate (10 - length r) CHR '' '' @ r) \<and>
        (length r = 10 \<longrightarrow> field = r)) \<and>
     (\<forall>a tail.
        drop 27 stored = replicate a CHR '' '' @ py_str previous @ tail \<and>
        \<not> sublist (py_str previous) tail \<and>
        10 \<le> length (py_str new_count) + length tail \<longrightarrow>
        field = drop (length (py_str new_count) + length tail - 10) (py_str new_count @ tail))"
proof -
  let ?r = "replace (drop 27 stored) (py_str previous) (py_str new_count)"
  have tail: "justify10 ?r = drop (length (py_str new_count) + length tail - 10) (py_str new_count @ tail)"
    if "drop 27 stored = replicate a CHR '' '' @ py_str previous @ tail"
      and "\<not> sublist (py_str previous) tail"
      and "10 \<le> length (py_str new_count) + length tail" for a tail
  proof -
    have r: "?r = replicate a CHR '' '' @ py_str new_count @ tail"
      using that(1,2) by (simp add: replace_count_field)
    show ?thesis
    proof (cases "10 < length ?r")
      case True
      then show ?thesis using that(3) by (simp add: r justify10_def)
    next
      case False
      with that(3) have "a = 0" "length ?r = 10" by (simp_all add: r)
      then show ?thesis using that(3) by (simp add: r justify10_def)
    qed
  qed
  have f1: "length (justify10 ?r) = 10" by (rule justify10_length)
  have f2: "10 < length ?r \<longrightarrow> justify10 ?r = drop (length ?r - 10) ?r"
    by (simp add: justify10_def)
  have f3: "length ?r < 10 \<longrightarrow> justify10 ?r = replicate (10 - length ?r) CHR '' '' @ ?r"
    by (simp add: justify10_def)
  have f4: "length ?r = 10 \<longrightarrow> justify10 ?r = ?r"
    by (simp add: justify10_def)
  have f5: "\<forall>a tail.
        drop 27 stored = replicate a CHR '' '' @ py_str previous @ tail \<and>
        \<not> sublist (py_str previous) tail \<and>
        10 \<le> length (py_str new_count) + length tail \<longrightarrow>
        justify10 ?r = drop (length (py_str new_count) + length tail - 10) (py_str new_count @ tail)"
    using tail by blast
  show ?thesis
    unfolding Let_def
    by (rule exI [of _ "justify10 ?r"]) (use rebuild_header_eq f1 f2 f3 f4 f5 in blast)
qed

text \<open>
  Witness: a stored count of 9999999999 becomes 10000000000; the field keeps nine
  digits and the newline.
\<close>

theorem rebuilt_header_shape_witness:
  "rebuild_header ''x 26.0000 y          1     9999999999\<newline>'' 9999999999 10000000000 =
     take 27 ''x 26.0000 y          1     9999999999\<newline>'' @ ''000000000\<newline>'' \<and>
   drop 27 ''x 26.0000 y          1     9999999999\<newline>'' =
     replicate 0 CHR '' '' @ py_str 9999999999 @ ''\<newline>'' \<and>
   \<not> sublist (py_str 9999999999) ''\<newline>'' \<and>
   10 \<le> length (py_str 10000000000) + length ''\<newline>''"
proof -
  let ?H = "''x 26.0000 y          1     9999999999\<newline>''"
  have old: "py_str 9999999999 = ''9999999999''" and new: "py_str 10000000000 = ''10000000000''"
    by (simp_all add: str_defs)
  have h1: "drop 27 ?H = replicate 0 CHR '' '' @ py_str 9999999999 @ ''\<newline>''"
    by (simp add: old)
  have h2: "\<not> sublist (py_str 9999999999) ''\<newline>''"
    unfolding old by code_simp
  have h3: "10 \<le> length (py_str 10000000000) + length ''\<newline>''"
    by (simp add: new)
  from rebuilt_header_shape [of ?H 9999999999 10000000000]
  obtain field where a: "rebuild_header ?H 9999999999 10000000000 = take 27 ?H @ field"
    and b: "\<forall>a tail.
        drop 27 ?H = replicate a CHR '' '' @ py_str 9999999999 @ tail \<and>
        \<not> sublist (py_str 9999999999) tail \<and>
        10 \<le> length (py_str 10000000000) + length tail \<longrightarrow>
        field = drop (length (py_str 10000000000) + length tail - 10) (py_str 10000000000 @ tail)"
    by blast
  from b h1 h2 h3
  have "field = drop (length (py_str 10000000000) + length ''\<newline>'' - 10) (py_str 10000000000 @ ''\<newline>'')"
    by blast
  also have "\<dots> = ''000000000\<newline>''"
    by (simp add: new)
  finally have "field = ''000000000\<newline>''" .
  with a h1 h2 h3 show ?thesis by (simp only:) simp
qed

text \<open>
  The claim as stated fails: a first file declares 9999999999 lines, a second one adds
  one line under the same element line. The sum prints as 10000000000, and the last ten
  characters of the rebuilt header are nine zeros and the newline, which is not the sum's
  digit string with leading characters dropped.
\<close>

theorem trailing_field_counterexample:
  "read_all (plain [''d/a'' \<mapsto> ''x 26.0000 y          1     9999999999\<newline>Fe I\<newline>'',
             ''d/b'' \<mapsto> ''x 26.0000 y          1              1\<newline>Fe I\<newline>l\<newline>''])
     ''d'' [''a'', ''b''] [] =
     Some (Inr [(''Fe I\<newline>'', [''x 26.0000 y          1     000000000\<newline>'', ''Fe I\<newline>'', ''l\<newline>''])]) \<and>
   declared_count ''x 26.0000 y          1     9999999999\<newline>'' = Inr 9999999999 \<and>
   declared_count ''x 26.0000 y          1              1\<newline>'' = Inr 1 \<and>
   py_str (1 + 9999999999) = ''10000000000'' \<and>
   drop 27 ''x 26.0000 y          1     000000000\<newline>'' = ''000000000\<newline>'' \<and>
   \<not> suffix ''000000000\<newline>'' ''10000000000''"
proof -
  let ?H = "''x 26.0000 y          1     9999999999\<newline>''"
  let ?H1 = "''x 26.0000 y          1              1\<newline>''"
  let ?H' = "''x 26.0000 y          1     000000000\<newline>''"
  let ?K = "''Fe I\<newline>''"
  have cH: "declared_count ?H = Inr 9999999999" and cH1: "declared_count ?H1 = Inr 1"
    by (simp_all add: parse_defs)
  have old: "py_str 9999999999 = ''9999999999''" and new: "py_str 10000000000 = ''10000000000''"
    by (simp_all add: str_defs)
  have la: "readlines ''x 26.0000 y          1     9999999999\<newline>Fe I\<newline>'' = [?H, ?K]"
    and lb: "readlines ''x 26.0000 y          1              1\<newline>Fe I\<newline>l\<newline>'' = [?H1, ?K, ''l\<newline>'']"
    by code_simp+
  have rbA: "read_block [?H, ?K] 1 = Inr ((?H, ?K, 9999999999, []), 10000000002)"
    by (simp add: read_block_def cH py_index_def py_slice_def clamp_bound_def)
  have sbA: "store_block [] (?H, ?K, 9999999999, []) = Inr [(?K, [?H, ?K])]"
    by (simp add: store_block_def)
  have wA: "walk [?H, ?K] 1 [] = Some (Inr [(?K, [?H, ?K])])"
    by (simp add: walk_step [OF _ rbA sbA] walk_stop)
  have rbB: "read_block [?H1, ?K, ''l\<newline>''] 1 = Inr ((?H1, ?K, 1, [''l\<newline>'']), 4)"
    by (simp add: read_block_def cH1 py_index_def py_slice_def clamp_bound_def)
  have rh: "rebuild_header ?H 9999999999 10000000000 = ?H'"
    by (simp add: rebuild_header_def old new replace.simps justify10_def)
  have sbB: "store_block [(?K, [?H, ?K])] (?H1, ?K, 1, [''l\<newline>'']) = Inr [(?K, [?H', ?K, ''l\<newline>''])]"
    by (simp add: store_block_def py_index_def cH rh)
  have wB: "walk [?H1, ?K, ''l\<newline>''] 1 [(?K, [?H, ?K])] = Some (Inr [(?K, [?H', ?K, ''l\<newline>''])])"
    by (simp add: walk_step [OF _ rbB sbB] walk_stop)
  have ra: "read_all (plain [''d/a'' \<mapsto> ''x 26.0000 y          1     9999999999\<newline>Fe I\<newline>'',
             ''d/b'' \<mapsto> ''x 26.0000 y          1              1\<newline>Fe I\<newline>l\<newline>''])
     ''d'' [''a'', ''b''] [] = Some (Inr [(?K, [?H', ?K, ''l\<newline>''])])"
    by (simp add: path_join_def open_read_plain la lb wA wB)
  have sf: "\<not> suffix ''000000000\<newline>'' ''10000000000''"
    by (simp add: suffix_def)
  show ?thesis
    using ra cH cH1 new sf by simp
qed


text \<open>
  C10. When a block merges into a stored one, the rebuilt header substitutes the new
  count for every occurrence of the old count's digit string in the stored header from
  character 27 on: with two occurrences, the first after the text \<open>a\<close> and the second
  after the text \<open>b\<close> (neither text letting the digit string start earlier), both are
  rewritten, and the substitution goes on in the rest \<open>c\<close> of the line.
\<close>

theorem every_occurrence_replaced:
  assumes "map_of d atomic_sym = Some (stored # k # ls)"
    and "declared_count stored = Inr previous"
    and "drop 27 stored = a @ py_str previous @ b @ py_str previous @ c"
    and "\<not> sublist (py_str previous) (a @ butlast (py_str previous))"
    and "\<not> sublist (py_str previous) (b @ butlast (py_str previous))"
  shows "\<exists>d' lines'.
           store_block d (header, atomic_sym, atomic_lines, sp) = Inr d' \<and>
           map_of d' atomic_sym =
             Some ((take 27 stored @
                    justify10 (a @ py_str (atomic_lines + previous) @ b @
                               py_str (atomic_lines + previous) @
                               replace c (py_str previous) (py_str (atomic_lines + previous))))
                   # k # lines')"
proof -
  let ?old = "py_str previous" and ?new = "py_str (atomic_lines + previous)"
  have "replace (drop 27 stored) ?old ?new = a @ ?new @ replace (b @ ?old @ c) ?old ?new"
    using assms(3,4) by (simp add: replace_first py_str_nonempty)
  also have "replace (b @ ?old @ c) ?old ?new = b @ ?new @ replace c ?old ?new"
    using assms(5) by (simp add: replace_first py_str_nonempty)
  finally have "rebuild_header stored previous (atomic_lines + previous) =
      take 27 stored @ justify10 (a @ ?new @ b @ ?new @ replace c ?old ?new)"
    by (simp add: rebuild_header_eq)
  then show ?thesis
    using assms(1,2) by (simp add: store_block_merge update_conv')
qed

text \<open>
  Witness: a header with the count 2 and a further field 2; after one more line is
  merged both fields read 3.
\<close>

theorem every_occurrence_replaced_witness:
  "map_of [(''Fe I\<newline>'', [''x 26.0000 y          1         2    2\<newline>'', ''Fe I\<newline>'', ''a\<newline>'', ''b\<newline>''])]
     ''Fe I\<newline>'' = Some (''x 26.0000 y          1         2    2\<newline>'' # ''Fe I\<newline>'' # [''a\<newline>'', ''b\<newline>'']) \<and>
   declared_count ''x 26.0000 y          1         2    2\<newline>'' = Inr 2 \<and>
   drop 27 ''x 26.0000 y          1         2    2\<newline>'' = ''    '' @ py_str 2 @ ''    '' @ py_str 2 @ ''\<newline>'' \<and>
   \<not> sublist (py_str 2) (''    '' @ butlast (py_str 2)) \<and>
   store_block [(''Fe I\<newline>'', [''x 26.0000 y          1         2    2\<newline>'', ''Fe I\<newline>'', ''a\<newline>'', ''b\<newline>''])]
     (''x 26.0000 y          1         1    2\<newline>'', ''Fe I\<newline>'', 1, [''c\<newline>'']) =
     Inr [(''Fe I\<newline>'', [''x 26.0000 y          1        3    3\<newline>'', ''Fe I\<newline>'', ''a\<newline>'', ''b\<newline>'', ''c\<newline>''])] \<and>
   (\<exists>d' lines'.
      store_block [(''Fe I\<newline>'', [''x 26.0000 y          1         2    2\<newline>'', ''Fe I\<newline>'', ''a\<newline>'', ''b\<newline>''])]
        (''x 26.0000 y          1         1    2\<newline>'', ''Fe I\<newline>'', 1, [''c\<newline>'']) = Inr d' \<and>
      map_of d' ''Fe I\<newline>'' =
        Some ((take 27 ''x 26.0000 y          1         2    2\<newline>'' @
               justify10 (''    '' @ py_str (1 + 2) @ ''    '' @ py_str (1 + 2) @
                          replace ''\<newline>'' (py_str 2) (py_str (1 + 2))))
              # ''Fe I\<newline>'' # lines'))"
proof -
  let ?H = "''x 26.0000 y          1         2    2\<newline>''"
  let ?d = "[(''Fe I\<newline>'', [?H, ''Fe I\<newline>'', ''a\<newline>'', ''b\<newline>''])]"
  have h1: "map_of ?d ''Fe I\<newline>'' = Some (?H # ''Fe I\<newline>'' # [''a\<newline>'', ''b\<newline>''])"
    by simp
  have h2: "declared_count ?H = Inr 2"
    by code_simp
  have h3: "drop 27 ?H = ''    '' @ py_str 2 @ ''    '' @ py_str 2 @ ''\<newline>''"
    by code_simp
  have h4: "\<not> sublist (py_str 2) (''    '' @ butlast (py_str 2))"
    by code_simp
  have h5: "store_block ?d (''x 26.0000 y          1         1    2\<newline>'', ''Fe I\<newline>'', 1, [''c\<newline>'']) =
     Inr [(''Fe I\<newline>'', [''x 26.0000 y          1        3    3\<newline>'', ''Fe I\<newline>'', ''a\<newline>'', ''b\<newline>'', ''c\<newline>''])]"
    by code_simp
  show ?thesis
    using h1 h2 h3 h4 h5 every_occurrence_replaced [OF h1 h2 h3 h4 h4] by blast
qed


text \<open>
  C8. A block that is stored and then merged with an identical copy of itself (same
  header, element line, count and data lines) gives an entry whose data lines are sorted
  and twice as many; sorting them again changes nothing, and a further merge that brings
  no data line and succeeds leaves them as they are.
\<close>

theorem merge_with_copy:
  assumes "map_of d atomic_sym = None"
    and "declared_count header = Inr atomic_lines"
  shows "\<exists>d1 d2 header2.
           store_block d (header, atomic_sym, atomic_lines, ls) = Inr d1 \<and>
           store_block d1 (header, atomic_sym, atomic_lines, ls) = Inr d2 \<and>
           map_of d2 atomic_sym = Some (header2 # atomic_sym # sort (ls @ ls)) \<and>
           sorted (sort (ls @ ls)) \<and>
           length (sort (ls @ ls)) = 2 * length ls \<and>
           sort (sort (ls @ ls)) = sort (ls @ ls) \<and>
           (\<forall>header3 n3 d3.
              store_block d2 (header3, atomic_sym, n3, []) = Inr d3 \<longrightarrow>
              (\<exists>h3. map_of d3 atomic_sym = Some (h3 # atomic_sym # sort (ls @ ls))))"
proof -
  let ?d1 = "AList.update atomic_sym (header # atomic_sym # ls) d"
  let ?h2 = "rebuild_header header atomic_lines (atomic_lines + atomic_lines)"
  let ?d2 = "AList.update atomic_sym (?h2 # atomic_sym # sort (ls @ ls)) ?d1"
  have s1: "store_block d (header, atomic_sym, atomic_lines, ls) = Inr ?d1"
    using assms(1) by (rule store_block_new)
  have m1: "map_of ?d1 atomic_sym = Some (header # atomic_sym # ls)"
    by (simp add: update_conv')
  have s2: "store_block ?d1 (header, atomic_sym, atomic_lines, ls) = Inr ?d2"
    using m1 assms(2) by (rule store_block_merge)
  have m2: "map_of ?d2 atomic_sym = Some (?h2 # atomic_sym # sort (ls @ ls))"
    by (simp add: update_conv')
  have again: "\<exists>h3. map_of d3 atomic_sym = Some (h3 # atomic_sym # sort (ls @ ls))"
    if "store_block ?d2 (header3, atomic_sym, n3, []) = Inr d3" for header3 n3 d3
  proof (cases "declared_count ?h2")
    case (Inl e)
    with that m2 show ?thesis by (simp add: store_block_def py_index_def)
  next
    case (Inr p)
    from store_block_merge [OF m2 Inr, of header3 n3 "[]"] that
    have "d3 = AList.update atomic_sym
        (rebuild_header ?h2 p (n3 + p) # atomic_sym # sort (sort (ls @ ls) @ [])) ?d2"
      by simp
    then show ?thesis by (simp add: update_conv' sorted_sort_id)
  qed
  show ?thesis
    using s1 s2 m2 again by (intro exI [of _ ?d1] exI [of _ ?d2] exI [of _ ?h2]) (simp add: sorted_sort_id)
qed

text \<open>Witness: a block of two lines, stored and merged with its copy.\<close>

theorem merge_with_copy_witness:
  "map_of [] ''Fe I\<newline>'' = None \<and>
   declared_count ''x 26.0000 y          1              2\<newline>'' = Inr 2 \<and>
   store_block [(''Fe I\<newline>'', [''x 26.0000 y          1             4\<newline>'', ''Fe I\<newline>'',
       ''a\<newline>'', ''a\<newline>'', ''b\<newline>'', ''b\<newline>''])]
     (''x 26.0000 y          1              0\<newline>'', ''Fe I\<newline>'', 0, []) =
     Inr [(''Fe I\<newline>'', [''x 26.0000 y          1             4\<newline>'', ''Fe I\<newline>'',
       ''a\<newline>'', ''a\<newline>'', ''b\<newline>'', ''b\<newline>''])] \<and>
   (\<exists>d1 d2 header2.
      store_block [] (''x 26.0000 y          1              2\<newline>'', ''Fe I\<newline>'', 2, [''b\<newline>'', ''a\<newline>'']) = Inr d1 \<and>
      store_block d1 (''x 26.0000 y          1              2\<newline>'', ''Fe I\<newline>'', 2, [''b\<newline>'', ''a\<newline>'']) = Inr d2 \<and>
      map_of d2 ''Fe I\<newline>'' = Some (header2 # ''Fe I\<newline>'' # [''a\<newline>'', ''a\<newline>'', ''b\<newline>'', ''b\<newline>'']) \<and>
      length [''a\<newline>'', ''a\<newline>'', ''b\<newline>'', ''b\<newline>''] = 2 * length [''b\<newline>'', ''a\<newline>''])"
proof -
  have h1: "map_of ([] :: atom_dict) ''Fe I\<newline>'' = None"
    by simp
  have h2: "declared_count ''x 26.0000 y          1              2\<newline>'' = Inr 2"
    by code_simp
  have h3: "store_block [(''Fe I\<newline>'', [''x 26.0000 y          1             4\<newline>'', ''Fe I\<newline>'',
       ''a\<newline>'', ''a\<newline>'', ''b\<newline>'', ''b\<newline>''])]
     (''x 26.0000 y          1              0\<newline>'', ''Fe I\<newline>'', 0, []) =
     Inr [(''Fe I\<newline>'', [''x 26.0000 y          1             4\<newline>'', ''Fe I\<newline>'',
       ''a\<newline>'', ''a\<newline>'', ''b\<newline>'', ''b\<newline>''])]"
    by code_simp
  have h4: "sort ([''b\<newline>'', ''a\<newline>''] @ [''b\<newline>'', ''a\<newline>'']) = [''a\<newline>'', ''a\<newline>'', ''b\<newline>'', ''b\<newline>'']"
    by code_simp
  from merge_with_copy [OF h1 h2, of "[''b\<newline>'', ''a\<newline>'']"] h4
  show ?thesis using h1 h2 h3 by auto
qed


section \<open>A whole run in terms of the blocks read\<close>

lemma store_all_append:
  "store_all d (bs @ bs') =
     (case store_all d bs of Inl e \<Rightarrow> Inl e | Inr d' \<Rightarrow> store_all d' bs')"
  by (induction bs arbitrary: d) (auto split: sum.splits)

lemma walk_reads:
  "reads lines file_line bs file_line' \<Longrightarrow>
   walk lines file_line d =
     (case store_all d bs of Inl e \<Rightarrow> Some (Inl e) | Inr d' \<Rightarrow> walk lines file_line' d')"
proof (induction arbitrary: d rule: reads.induct)
  case (reads_done file_line)
  show ?case by simp
next
  case (reads_step file_line b file_line' bs file_line'')
  show ?case
  proof (cases "store_block d b")
    case (Inl e)
    with reads_step.hyps show ?thesis by (simp add: walk_store_error)
  next
    case (Inr d')
    with reads_step.hyps have "walk lines file_line d = walk lines file_line' d'"
      by (simp add: walk_step)
    with reads_step.IH [of d'] Inr show ?thesis by simp
  qed
qed

lemma walk_complete:
  assumes "reads lines file_line bs file_line'" and "\<not> file_line' < int (length lines)"
  shows "walk lines file_line d = Some (store_all d bs)"
  using walk_reads [OF assms(1), of d] assms(2)
  by (simp add: walk_stop split: sum.splits)

lemma walk_returns_aux:
  "walk lines file_line d = Some y \<Longrightarrow>
   \<forall>d'. y = Inr d' \<longrightarrow>
     (\<exists>bs file_line'. reads lines file_line bs file_line' \<and>
        \<not> file_line' < int (length lines) \<and> store_all d bs = Inr d')"
proof (induction rule: walk.raw_induct [rotated 1, consumes 1])
  case (1 walk' lines file_line d y)
  show ?case
  proof (intro allI impI)
    fix d'
    assume y: "y = Inr d'"
    show "\<exists>bs file_line'. reads lines file_line bs file_line' \<and>
        \<not> file_line' < int (length lines) \<and> store_all d bs = Inr d'"
    proof (cases "file_line < int (length lines)")
      case False
      with "1.hyps" y have "d' = d" by simp
      with False show ?thesis
        by (intro exI [of _ "[]"] exI [of _ file_line]) (simp add: reads_done)
    next
      case True
      with "1.hyps" y obtain b fl' d1 where
        rb: "read_block lines file_line = Inr (b, fl')" and sb: "store_block d b = Inr d1"
        and w: "walk' lines fl' d1 = Some (Inr d')"
        by (auto split: sum.splits prod.splits)
      from "1.IH" [OF w] obtain bs fl'' where
        "reads lines fl' bs fl''" "\<not> fl'' < int (length lines)" "store_all d1 bs = Inr d'"
        by blast
      with True rb sb show ?thesis
        by (intro exI [of _ "b # bs"] exI [of _ fl'']) (simp add: reads_step)
    qed
  qed
qed

lemma walk_returns:
  assumes "walk lines file_line d = Some (Inr d')"
  shows "\<exists>bs file_line'. reads lines file_line bs file_line' \<and>
           \<not> file_line' < int (length lines) \<and> store_all d bs = Inr d'"
  using walk_returns_aux [OF assms] by blast

lemma read_all_append:
  "read_all fs input_folder (before @ rest) d =
     (case read_all fs input_folder before d of
        None \<Rightarrow> None
      | Some (Inl e) \<Rightarrow> Some (Inl e)
      | Some (Inr d') \<Rightarrow> read_all fs input_folder rest d')"
  by (induction before arbitrary: d) (auto split: option.splits sum.splits)

lemma read_all_dir_blocks:
  "dir_blocks fs input_folder listing bs \<Longrightarrow>
   read_all fs input_folder listing d = Some (store_all d bs)"
proof (induction arbitrary: d rule: dir_blocks.induct)
  case dir_done
  show ?case by simp
next
  case (dir_step linelist ftext bs file_line rest bs')
  have "walk (readlines ftext) 1 d = Some (store_all d bs)"
    using dir_step.hyps(2,3) by (rule walk_complete)
  with dir_step.hyps(1) dir_step.IH show ?case
    by (simp add: store_all_append split: sum.splits)
qed

lemma read_all_returns:
  "read_all fs input_folder listing d = Some (Inr d') \<Longrightarrow>
   \<exists>bs. dir_blocks fs input_folder listing bs \<and> store_all d bs = Inr d'"
proof (induction listing arbitrary: d)
  case Nil
  then show ?case by (auto intro: dir_done)
next
  case (Cons linelist rest)
  from Cons.prems obtain ftext d1 where
    t: "open_read fs (path_join input_folder linelist) = Some ftext"
    and w: "walk (readlines ftext) 1 d = Some (Inr d1)"
    and r: "read_all fs input_folder rest d1 = Some (Inr d')"
    by (auto split: option.splits sum.splits)
  from walk_returns [OF w] obtain bs fl where
    b: "reads (readlines ftext) 1 bs fl" "\<not> fl < int (length (readlines ftext))"
       "store_all d bs = Inr d1"
    by blast
  from Cons.IH [OF r] obtain bs' where
    b': "dir_blocks fs input_folder rest bs'" "store_all d1 bs' = Inr d'"
    by blast
  from t b b' show ?case
    by (intro exI [of _ "bs @ bs'"]) (simp add: dir_step store_all_append)
qed


section \<open>Malformed input\<close>

text \<open>
  C5 (as amended). When the count declared by a header exceeds the number of lines left
  in the file after the element line, nothing fails on that account: the slice of line
  83 takes the lines that are left, the block is stored or merged like any other (a new
  element line is stored at once), and the walk of the file ends with this block.
\<close>

theorem truncated_block_is_read:
  assumes "0 < file_line" and "file_line < int (length lines)"
    and "declared_count (lines ! nat (file_line - 1)) = Inr atomic_lines"
    and "int (length lines) - (file_line + 1) < atomic_lines"
  shows "read_block lines file_line =
           Inr ((lines ! nat (file_line - 1), lines ! nat file_line, atomic_lines,
                 drop (nat (file_line + 1)) lines), file_line + 1 + atomic_lines + 1) \<and>
         \<not> file_line + 1 + atomic_lines + 1 < int (length lines) \<and>
         walk lines file_line d =
           Some (store_block d (lines ! nat (file_line - 1), lines ! nat file_line, atomic_lines,
                   drop (nat (file_line + 1)) lines)) \<and>
         (map_of d (lines ! nat file_line) = None \<longrightarrow>
            walk lines file_line d =
              Some (Inr (AList.update (lines ! nat file_line)
                     (lines ! nat (file_line - 1) # lines ! nat file_line #
                      drop (nat (file_line + 1)) lines) d)))"
proof -
  let ?b = "(lines ! nat (file_line - 1), lines ! nat file_line, atomic_lines,
             drop (nat (file_line + 1)) lines)"
  have rb: "read_block lines file_line = Inr (?b, file_line + 1 + atomic_lines + 1)"
    using assms by (simp add: read_block_def py_index_def py_slice_to_end Let_def add.commute)
  have stop: "\<not> file_line + 1 + atomic_lines + 1 < int (length lines)"
    using assms(4) by simp
  have w: "walk lines file_line d = Some (store_block d ?b)"
  proof (cases "store_block d ?b")
    case (Inl e)
    with assms(2) rb show ?thesis by (simp add: walk_store_error)
  next
    case (Inr d')
    with assms(2) rb stop show ?thesis by (simp add: walk_step walk_stop)
  qed
  show ?thesis
    using rb stop w by (simp add: store_block_new)
qed

text \<open>Witness: a header that declares five lines, one line left.\<close>

theorem truncated_block_is_read_witness:
  "(0::int) < 1 \<and> (1::int) < int (length [''x 26.0000 y          1              5\<newline>'', ''Fe I\<newline>'', ''a\<newline>'']) \<and>
   declared_count ([''x 26.0000 y          1              5\<newline>'', ''Fe I\<newline>'', ''a\<newline>''] ! nat (1 - 1)) = Inr 5 \<and>
   int (length [''x 26.0000 y          1              5\<newline>'', ''Fe I\<newline>'', ''a\<newline>'']) - (1 + 1) < 5 \<and>
   map_of ([] :: atom_dict) ''Fe I\<newline>'' = None \<and>
   walk [''x 26.0000 y          1              5\<newline>'', ''Fe I\<newline>'', ''a\<newline>''] 1 [] =
     Some (Inr [(''Fe I\<newline>'', [''x 26.0000 y          1              5\<newline>'', ''Fe I\<newline>'', ''a\<newline>''])])"
proof -
  let ?L = "[''x 26.0000 y          1              5\<newline>'', ''Fe I\<newline>'', ''a\<newline>'']"
  have h1: "(0::int) < 1" by simp
  have h2: "(1::int) < int (length ?L)" by simp
  have h3: "declared_count (?L ! nat (1 - 1)) = Inr 5" by (simp add: parse_defs)
  have h4: "int (length ?L) - (1 + 1) < 5" by simp
  from truncated_block_is_read [OF h1 h2 h3 h4, of "[]"]
  have "walk ?L 1 [] = Some (Inr (AList.update (?L ! nat 1)
                     (?L ! nat (1 - 1) # ?L ! nat 1 # drop (nat (1 + 1)) ?L) []))"
    by (simp add: store_block_def)
  then have "walk ?L 1 [] = Some (Inr [(''Fe I\<newline>'', ?L)])"
    by simp
  with h1 h2 h3 h4 show ?thesis by simp
qed

text \<open>
  The claim as stated fails: a directory whose only file declares five lines and holds
  one. The call returns and writes the output file.
\<close>

theorem truncated_block_counterexample:
  "TurboSort (plain [''d/a'' \<mapsto> ''x 26.0000 y          1              5\<newline>Fe I\<newline>a\<newline>'']) [''a''] ''d'' ''out'' =
     Some (Inr (), (plain [''d/a'' \<mapsto> ''x 26.0000 y          1              5\<newline>Fe I\<newline>a\<newline>'',
                    ''out'' \<mapsto> ''x 26.0000 y          1              5\<newline>Fe I\<newline>a\<newline>''])) \<and>
   readlines ''x 26.0000 y          1              5\<newline>Fe I\<newline>a\<newline>'' =
     [''x 26.0000 y          1              5\<newline>'', ''Fe I\<newline>'', ''a\<newline>''] \<and>
   declared_count ''x 26.0000 y          1              5\<newline>'' = Inr 5"
proof -
  have ra: "read_all (plain [''d/a'' \<mapsto> ''x 26.0000 y          1              5\<newline>Fe I\<newline>a\<newline>'']) ''d'' [''a''] [] =
      Some (Inr [(''Fe I\<newline>'', [''x 26.0000 y          1              5\<newline>'', ''Fe I\<newline>'', ''a\<newline>''])])"
    by code_simp
  have rl: "readlines ''x 26.0000 y          1              5\<newline>Fe I\<newline>a\<newline>'' =
     [''x 26.0000 y          1              5\<newline>'', ''Fe I\<newline>'', ''a\<newline>'']"
    by code_simp
  have dc: "declared_count ''x 26.0000 y          1              5\<newline>'' = Inr 5"
    by code_simp
  show ?thesis
    unfolding TurboSort_def ra using rl dc by (simp add: output_lines_def write_file_plain)
qed


lemma read_block_short_header:
  assumes "py_index lines (file_line - 1) = Inr header" and "length (split_ws header) < 5"
  shows "read_block lines file_line = Inl IndexError"
proof -
  have "declared_count header = Inl IndexError"
    using assms(2) by (simp add: declared_count_def py_index_def)
  with assms(1) show ?thesis
    by (simp add: read_block_def Let_def py_index_def split: sum.splits if_splits)
qed

text \<open>
  C6 (as amended). When the walk comes to a header with fewer than five tokens that is
  not the last line of its file (every file listed before is there and is walked to its
  end, and the blocks before the header in its own file are read), the call fails and
  the file system is left as it was: no output file is created. The failure is Python's
  \<open>IndexError\<close> of line 80 (the code has no exception of its own), unless the merge of
  an earlier block has failed already, which ends the call in the same way.
\<close>

theorem short_header_fails:
  assumes "listing = before @ linelist # rest"
    and "dir_blocks fs input_folder before bs0"
    and "open_read fs (path_join input_folder linelist) = Some ftext"
    and "reads (readlines ftext) 1 bs file_line"
    and "file_line < int (length (readlines ftext))"
    and "py_index (readlines ftext) (file_line - 1) = Inr header"
    and "length (split_ws header) < 5"
  shows "TurboSort fs listing input_folder output_file =
           Some (Inl (case store_all [] (bs0 @ bs) of Inl e \<Rightarrow> e | Inr d1 \<Rightarrow> IndexError), fs)"
proof -
  let ?e = "case store_all [] (bs0 @ bs) of Inl e \<Rightarrow> e | Inr d1 \<Rightarrow> IndexError"
  have before: "read_all fs input_folder before [] = Some (store_all [] bs0)"
    using assms(2) by (rule read_all_dir_blocks)
  have stop: "walk (readlines ftext) file_line d1 = Some (Inl IndexError)" for d1
    using assms(5) read_block_short_header [OF assms(6,7)] by (rule walk_read_error)
  have "read_all fs input_folder listing [] = Some (Inl ?e)"
  proof (cases "store_all [] bs0")
    case (Inl e)
    then show ?thesis
      by (simp add: assms(1) read_all_append before store_all_append)
  next
    case (Inr d0)
    have "walk (readlines ftext) 1 d0 =
        (case store_all d0 bs of Inl e \<Rightarrow> Some (Inl e) | Inr d1 \<Rightarrow> Some (Inl IndexError))"
      unfolding walk_reads [OF assms(4), of d0] by (simp add: stop split: sum.splits)
    then have "read_all fs input_folder (linelist # rest) d0 =
        Some (Inl (case store_all d0 bs of Inl e \<Rightarrow> e | Inr d1 \<Rightarrow> IndexError))"
      using assms(3) by (simp split: sum.splits)
    with Inr show ?thesis
      by (simp add: assms(1) read_all_append before store_all_append)
  qed
  then show ?thesis by (simp add: TurboSort_def)
qed

text \<open>
  Witness: a first file is merged, the second file holds one good block and then a
  header of three tokens, with lines after it.
\<close>

theorem short_header_fails_witness:
  "[''a'', ''b''] = [''a''] @ ''b'' # [] \<and>
   dir_blocks (plain [''d/a'' \<mapsto> ''x 03.0000 y          1              1\<newline>Li I\<newline>l\<newline>'',
             ''d/b'' \<mapsto> ''x 26.0000 y          1              1\<newline>Fe I\<newline>a\<newline>x 27.0000 y\<newline>Co I\<newline>b\<newline>''])
     ''d'' [''a'']
     ([(''x 03.0000 y          1              1\<newline>'', ''Li I\<newline>'', 1, [''l\<newline>''])] @ []) \<and>
   reads (readlines ''x 26.0000 y          1              1\<newline>Fe I\<newline>a\<newline>x 27.0000 y\<newline>Co I\<newline>b\<newline>'') 1
     [(''x 26.0000 y          1              1\<newline>'', ''Fe I\<newline>'', 1, [''a\<newline>''])] 4 \<and>
   (4::int) < int (length (readlines ''x 26.0000 y          1              1\<newline>Fe I\<newline>a\<newline>x 27.0000 y\<newline>Co I\<newline>b\<newline>'')) \<and>
   py_index (readlines ''x 26.0000 y          1              1\<newline>Fe I\<newline>a\<newline>x 27.0000 y\<newline>Co I\<newline>b\<newline>'') (4 - 1) =
     Inr ''x 27.0000 y\<newline>'' \<and>
   length (split_ws ''x 27.0000 y\<newline>'') < 5 \<and>
   TurboSort (plain [''d/a'' \<mapsto> ''x 03.0000 y          1              1\<newline>Li I\<newline>l\<newline>'',
              ''d/b'' \<mapsto> ''x 26.0000 y          1              1\<newline>Fe I\<newline>a\<newline>x 27.0000 y\<newline>Co I\<newline>b\<newline>''])
     [''a'', ''b''] ''d'' ''out'' =
     Some (Inl IndexError,
           (plain [''d/a'' \<mapsto> ''x 03.0000 y          1              1\<newline>Li I\<newline>l\<newline>'',
            ''d/b'' \<mapsto> ''x 26.0000 y          1              1\<newline>Fe I\<newline>a\<newline>x 27.0000 y\<newline>Co I\<newline>b\<newline>'']))"
proof -
  let ?ta = "''x 03.0000 y          1              1\<newline>Li I\<newline>l\<newline>''"
  let ?tb = "''x 26.0000 y          1              1\<newline>Fe I\<newline>a\<newline>x 27.0000 y\<newline>Co I\<newline>b\<newline>''"
  let ?fs = "plain [''d/a'' \<mapsto> ?ta, ''d/b'' \<mapsto> ?tb]"
  let ?bl = "(''x 03.0000 y          1              1\<newline>'', ''Li I\<newline>'', 1, [''l\<newline>''])"
  let ?b = "(''x 26.0000 y          1              1\<newline>'', ''Fe I\<newline>'', 1, [''a\<newline>''])"
  have h1: "[''a'', ''b''] = [''a''] @ ''b'' # []" by simp
  have a1: "open_read ?fs (path_join ''d'' ''a'') = Some ?ta"
    by (simp add: path_join_def open_read_plain)
  have la: "(1::int) < int (length (readlines ?ta))" by code_simp
  have rba: "read_block (readlines ?ta) 1 = Inr (?bl, 4)" by code_simp
  have a2: "reads (readlines ?ta) 1 [?bl] 4" by (rule reads_step [OF la rba reads_done])
  have a3: "\<not> 4 < int (length (readlines ?ta))" by code_simp
  have h2: "dir_blocks ?fs ''d'' [''a''] ([?bl] @ [])"
    using a1 a2 a3 dir_done by (rule dir_step)
  have h3: "open_read ?fs (path_join ''d'' ''b'') = Some ?tb"
    by (simp add: path_join_def open_read_plain)
  have rb: "read_block (readlines ?tb) 1 = Inr (?b, 4)" by code_simp
  have len: "(1::int) < int (length (readlines ?tb))" by code_simp
  have h4: "reads (readlines ?tb) 1 [?b] 4"
    by (rule reads_step [OF len rb reads_done])
  have h6: "(4::int) < int (length (readlines ?tb))" by code_simp
  have h7: "py_index (readlines ?tb) (4 - 1) = Inr ''x 27.0000 y\<newline>''" by code_simp
  have h8: "length (split_ws ''x 27.0000 y\<newline>'') < 5" by code_simp
  have sa: "store_all [] (([?bl] @ []) @ [?b]) =
      Inr [(''Li I\<newline>'', [''x 03.0000 y          1              1\<newline>'', ''Li I\<newline>'', ''l\<newline>'']),
           (''Fe I\<newline>'', [''x 26.0000 y          1              1\<newline>'', ''Fe I\<newline>'', ''a\<newline>''])]"
    by code_simp
  note r = short_header_fails [OF h1 h2 h3 h4 h6 h7 h8, of "''out''", unfolded sa sum.case]
  show ?thesis
    by (intro conjI) (rule h1 h2 h4 h6 h7 h8 r)+
qed

text \<open>
  The claim as stated fails: a header of three tokens that is the last line of its file
  is never parsed, because the loop of line 77 ends when one line is left. The call
  returns and writes the output file, for a file that is this header alone and for a
  file in which the header follows a complete block.
\<close>

theorem short_header_counterexample:
  "length (split_ws ''x 27.0000 y\<newline>'') < 5 \<and>
   readlines ''x 27.0000 y\<newline>'' = [''x 27.0000 y\<newline>''] \<and>
   TurboSort (plain [''d/a'' \<mapsto> ''x 27.0000 y\<newline>'']) [''a''] ''d'' ''out'' =
     Some (Inr (), (plain [''d/a'' \<mapsto> ''x 27.0000 y\<newline>'', ''out'' \<mapsto> ''''])) \<and>
   readlines ''x 26.0000 y          1              1\<newline>Fe I\<newline>a\<newline>x 27.0000 y\<newline>'' =
     [''x 26.0000 y          1              1\<newline>'', ''Fe I\<newline>'', ''a\<newline>'', ''x 27.0000 y\<newline>''] \<and>
   declared_count ''x 26.0000 y          1              1\<newline>'' = Inr 1 \<and>
   TurboSort (plain [''d/a'' \<mapsto> ''x 26.0000 y          1              1\<newline>Fe I\<newline>a\<newline>x 27.0000 y\<newline>''])
     [''a''] ''d'' ''out'' =
     Some (Inr (), (plain [''d/a'' \<mapsto> ''x 26.0000 y          1              1\<newline>Fe I\<newline>a\<newline>x 27.0000 y\<newline>'',
                    ''out'' \<mapsto> ''x 26.0000 y          1              1\<newline>Fe I\<newline>a\<newline>'']))"
proof -
  let ?t1 = "''x 27.0000 y\<newline>''"
  let ?t2 = "''x 26.0000 y          1              1\<newline>Fe I\<newline>a\<newline>x 27.0000 y\<newline>''"
  let ?d2 = "[(''Fe I\<newline>'', [''x 26.0000 y          1              1\<newline>'', ''Fe I\<newline>'', ''a\<newline>''])]"
  have c1: "length (split_ws ?t1) < 5" by code_simp
  have c2: "readlines ?t1 = [?t1]" by code_simp
  have r1: "read_all (plain [''d/a'' \<mapsto> ?t1]) ''d'' [''a''] [] = Some (Inr [])" by code_simp
  have o1: "concat (output_lines []) = ''''" by code_simp
  have c3: "TurboSort (plain [''d/a'' \<mapsto> ?t1]) [''a''] ''d'' ''out'' =
      Some (Inr (), plain [''d/a'' \<mapsto> ?t1, ''out'' \<mapsto> ''''])"
    unfolding TurboSort_def r1 by (simp add: write_file_plain o1)
  have c4: "readlines ?t2 =
      [''x 26.0000 y          1              1\<newline>'', ''Fe I\<newline>'', ''a\<newline>'', ''x 27.0000 y\<newline>'']"
    by code_simp
  have c5: "declared_count ''x 26.0000 y          1              1\<newline>'' = Inr 1" by code_simp
  have r2: "read_all (plain [''d/a'' \<mapsto> ?t2]) ''d'' [''a''] [] = Some (Inr ?d2)" by code_simp
  have o2: "concat (output_lines ?d2) = ''x 26.0000 y          1              1\<newline>Fe I\<newline>a\<newline>''"
    by code_simp
  have c6: "TurboSort (plain [''d/a'' \<mapsto> ?t2]) [''a''] ''d'' ''out'' =
      Some (Inr (), plain [''d/a'' \<mapsto> ?t2,
        ''out'' \<mapsto> ''x 26.0000 y          1              1\<newline>Fe I\<newline>a\<newline>''])"
    unfolding TurboSort_def r2 by (simp add: write_file_plain o2)
  show ?thesis
    by (intro conjI) (rule c1 c2 c3 c4 c5 c6)+
qed


section \<open>The shape of the accumulator\<close>

lemma set_update_subset: "set (AList.update k v d) \<subseteq> insert (k, v) (set d)"
  by (induction d) auto

lemma update_absent: "map_of d k = None \<Longrightarrow> AList.update k v d = d @ [(k, v)]"
  by (induction d) (auto split: if_splits)

lemma dict_ok_update:
  assumes "dict_ok d" and "2 \<le> length v" and "v ! 1 = k"
  shows "dict_ok (AList.update k v d)"
proof -
  have "entry_ok (k, v)" using assms(2,3) by (simp add: entry_ok_def)
  with assms(1) have "\<forall>e\<in>set (AList.update k v d). entry_ok e"
    using set_update_subset [of k v d] by (auto simp: dict_ok_def list_all_iff)
  with assms(1) show ?thesis
    by (simp add: dict_ok_def list_all_iff distinct_update)
qed

lemma dict_ok_lookup:
  assumes "dict_ok d" and "map_of d k = Some val"
  obtains h ls where "val = h # k # ls"
proof -
  from assms(2) have "(k, val) \<in> set d" by (rule map_of_SomeD)
  with assms(1) have "2 \<le> length val" "val ! 1 = k"
    by (auto simp: dict_ok_def list_all_iff entry_ok_def)
  then obtain h k' ls where "val = h # k' # ls" "k' = k"
    by (cases val; cases "tl val") auto
  with that show ?thesis by simp
qed

lemma store_block_cases:
  assumes "dict_ok d" and "store_block d (header, k, n, sp) = Inr d'"
  obtains (fresh) "map_of d k = None" "d' = AList.update k (header # k # sp) d"
  | (merged) h ls previous where "map_of d k = Some (h # k # ls)"
      "declared_count h = Inr previous"
      "d' = AList.update k (rebuild_header h previous (n + previous) # k # sort (ls @ sp)) d"
proof (cases "map_of d k")
  case None
  with assms(2) show ?thesis by (intro fresh) (simp_all add: store_block_new)
next
  case (Some val)
  with assms(1) obtain h ls where val: "val = h # k # ls" by (rule dict_ok_lookup)
  show ?thesis
  proof (cases "declared_count h")
    case (Inl e)
    with assms(2) Some val show ?thesis by (simp add: store_block_def py_index_def)
  next
    case (Inr previous)
    with assms(2) Some val store_block_merge [of d k h k ls previous header n sp]
    show ?thesis by (intro merged [of h ls previous]) simp_all
  qed
qed

lemma store_block_ok:
  assumes "dict_ok d" and "store_block d b = Inr d'"
  shows "dict_ok d'"
proof -
  obtain header k n sp where b: "b = (header, k, n, sp)" by (cases b)
  from assms show ?thesis unfolding b
  proof (cases rule: store_block_cases)
    case fresh
    with assms(1) show ?thesis by (simp add: dict_ok_update)
  next
    case (merged h ls previous)
    with assms(1) show ?thesis by (simp add: dict_ok_update)
  qed
qed

lemma store_all_ok: "dict_ok d \<Longrightarrow> store_all d bs = Inr d' \<Longrightarrow> dict_ok d'"
  by (induction bs arbitrary: d) (auto split: sum.splits dest: store_block_ok)

lemma dict_ok_Nil: "dict_ok []"
  by (simp add: dict_ok_def)

lemma read_all_ok:
  assumes "read_all fs input_folder listing [] = Some (Inr d)"
  shows "dict_ok d"
  using read_all_returns [OF assms] store_all_ok [OF dict_ok_Nil] by blast

lemma block_order:
  assumes "2 \<le> length a" and "2 \<le> length b" and "a \<le> b" and "a ! 1 \<noteq> b ! 1"
  shows "a ! 0 < b ! 0 \<or> (a ! 0 = b ! 0 \<and> a ! 1 < b ! 1)"
proof -
  from assms(1) obtain ha ka la where a: "a = ha # ka # la" by (cases a; cases "tl a") auto
  from assms(2) obtain hb kb lb where b: "b = hb # kb # lb" by (cases b; cases "tl b") auto
  from assms(3,4) show ?thesis unfolding a b by auto
qed

lemma sorted_values_order:
  assumes "dict_ok d"
  shows "sorted_wrt (\<lambda>a b. a ! 0 < b ! 0 \<or> (a ! 0 = b ! 0 \<and> a ! 1 < b ! 1)) (sort (map snd d))"
proof -
  let ?vs = "sort (map snd d)"
  have keys: "map (\<lambda>v. v ! 1) (map snd d) = map fst d"
    using assms by (auto simp: dict_ok_def list_all_iff entry_ok_def)
  have "mset ?vs = mset (map snd d)" by simp
  then have "image_mset (\<lambda>v. v ! 1) (mset ?vs) = image_mset (\<lambda>v. v ! 1) (mset (map snd d))"
    by (rule arg_cong)
  then have "mset (map (\<lambda>v. v ! 1) ?vs) = mset (map (\<lambda>v. v ! 1) (map snd d))"
    by (simp only: mset_map)
  then have "distinct (map (\<lambda>v. v ! 1) ?vs) = distinct (map (\<lambda>v. v ! 1) (map snd d))"
    by (rule mset_eq_imp_distinct_iff)
  moreover have "distinct (map fst d)" using assms by (simp add: dict_ok_def)
  then have "distinct (map (\<lambda>v. v ! 1) (map snd d))" by (simp only: keys)
  ultimately have dist: "distinct (map (\<lambda>v. v ! 1) ?vs)" by blast
  have len: "\<forall>v\<in>set ?vs. 2 \<le> length v"
    using assms by (auto simp: dict_ok_def list_all_iff entry_ok_def)
  show ?thesis
    unfolding sorted_wrt_iff_nth_less
  proof (intro allI impI)
    fix i j assume ij: "i < j" "j < length ?vs"
    then have "?vs ! i \<le> ?vs ! j"
      using sorted_sort [of "map snd d"] by (simp add: sorted_iff_nth_mono)
    moreover have "(?vs ! i) ! 1 \<noteq> (?vs ! j) ! 1"
      using dist ij nth_eq_iff_index_eq [of "map (\<lambda>v. v ! 1) ?vs" i j] by simp
    moreover have "?vs ! i \<in> set ?vs" "?vs ! j \<in> set ?vs"
      using ij by (simp_all only: nth_mem order.strict_trans [OF ij])
    then have "2 \<le> length (?vs ! i)" "2 \<le> length (?vs ! j)"
      using len by blast+
    ultimately show "(?vs ! i) ! 0 < (?vs ! j) ! 0 \<or>
        ((?vs ! i) ! 0 = (?vs ! j) ! 0 \<and> (?vs ! i) ! 1 < (?vs ! j) ! 1)"
      by (intro block_order)
  qed
qed

lemma store_all_fresh:
  "distinct (map block_key bs) \<Longrightarrow> \<forall>b\<in>set bs. map_of d (block_key b) = None \<Longrightarrow>
   store_all d bs = Inr (d @ map (\<lambda>b. (block_key b, block_entry b)) bs)"
proof (induction bs arbitrary: d)
  case Nil
  show ?case by simp
next
  case (Cons b bs)
  obtain header k n sp where b: "b = (header, k, n, sp)" by (cases b)
  have none: "map_of d k = None" using Cons.prems(2) by (simp add: b block_key_def)
  then have sb: "store_block d b = Inr (d @ [(k, header # k # sp)])"
    by (simp add: b store_block_new update_absent)
  have kb: "block_key b = k" by (simp add: b block_key_def)
  have "\<forall>b'\<in>set bs. map_of (d @ [(k, header # k # sp)]) (block_key b') = None"
  proof
    fix b' assume "b' \<in> set bs"
    then have "block_key b' \<in> block_key ` set bs" by simp
    with Cons.prems(1) kb have "block_key b' \<noteq> k" by auto
    moreover from \<open>b' \<in> set bs\<close> Cons.prems(2) have "map_of d (block_key b') = None"
      by simp
    ultimately have "block_key b' \<noteq> k" "map_of d (block_key b') = None" .
    then show "map_of (d @ [(k, header # k # sp)]) (block_key b') = None"
      by (simp add: map_add_def)
  qed
  with Cons.IH [of "d @ [(k, header # k # sp)]"] Cons.prems(1)
  have "store_all (d @ [(k, header # k # sp)]) bs =
      Inr ((d @ [(k, header # k # sp)]) @ map (\<lambda>b. (block_key b, block_entry b)) bs)"
    by simp
  with sb show ?case by (simp add: b block_key_def block_entry_def)
qed


section \<open>The output\<close>

text \<open>
  C4. When the input files are read without failure, the call writes the concatenation
  of the lines of the accumulated blocks, taken in sorted order of the blocks as lists
  of strings \<open>[header, element line, data lines...]\<close> (the lexicographic order of
  lists, over the order of strings): a block comes before another when its header text
  is smaller, or when the header texts are equal and its element line is smaller.
\<close>

theorem output_block_order:
  assumes "read_all fs input_folder listing [] = Some (Inr d)"
  shows "\<exists>blocks.
           TurboSort fs listing input_folder output_file =
             Some (write_file fs output_file (concat (concat blocks))) \<and>
           mset blocks = mset (map snd d) \<and>
           sorted blocks \<and>
           sorted_wrt (\<lambda>a b. a ! 0 < b ! 0 \<or> (a ! 0 = b ! 0 \<and> a ! 1 < b ! 1)) blocks"
proof -
  have "dict_ok d" using assms by (rule read_all_ok)
  then have "sorted_wrt (\<lambda>a b. a ! 0 < b ! 0 \<or> (a ! 0 = b ! 0 \<and> a ! 1 < b ! 1))
      (sort (map snd d))"
    by (rule sorted_values_order)
  then show ?thesis
    using assms by (intro exI [of _ "sort (map snd d)"]) (simp add: TurboSort_def output_lines_def)
qed

text \<open>Witness: two files with one block each; the block with the smaller header comes first.\<close>

theorem output_block_order_witness:
  "read_all (plain [''d/a'' \<mapsto> ''x 26.0000 y          1              1\<newline>Fe I\<newline>a\<newline>'',
             ''d/b'' \<mapsto> ''x 03.0000 y          1              1\<newline>Li I\<newline>l\<newline>''])
     ''d'' [''a'', ''b''] [] =
     Some (Inr [(''Fe I\<newline>'', [''x 26.0000 y          1              1\<newline>'', ''Fe I\<newline>'', ''a\<newline>'']),
                (''Li I\<newline>'', [''x 03.0000 y          1              1\<newline>'', ''Li I\<newline>'', ''l\<newline>''])]) \<and>
   (\<exists>blocks.
      TurboSort (plain [''d/a'' \<mapsto> ''x 26.0000 y          1              1\<newline>Fe I\<newline>a\<newline>'',
                 ''d/b'' \<mapsto> ''x 03.0000 y          1              1\<newline>Li I\<newline>l\<newline>''])
        [''a'', ''b''] ''d'' ''out'' =
        Some (Inr (), (plain [''d/a'' \<mapsto> ''x 26.0000 y          1              1\<newline>Fe I\<newline>a\<newline>'',
                       ''d/b'' \<mapsto> ''x 03.0000 y          1              1\<newline>Li I\<newline>l\<newline>'',
                       ''out'' \<mapsto> concat (concat blocks)])) \<and>
      mset blocks =
        mset (map snd [(''Fe I\<newline>'', [''x 26.0000 y          1              1\<newline>'', ''Fe I\<newline>'', ''a\<newline>'']),
                       (''Li I\<newline>'', [''x 03.0000 y          1              1\<newline>'', ''Li I\<newline>'', ''l\<newline>''])]) \<and>
      sorted blocks \<and>
      sorted_wrt (\<lambda>a b. a ! 0 < b ! 0 \<or> (a ! 0 = b ! 0 \<and> a ! 1 < b ! 1)) blocks)"
proof -
  have h: "read_all (plain [''d/a'' \<mapsto> ''x 26.0000 y          1              1\<newline>Fe I\<newline>a\<newline>'',
             ''d/b'' \<mapsto> ''x 03.0000 y          1              1\<newline>Li I\<newline>l\<newline>''])
     ''d'' [''a'', ''b''] [] =
     Some (Inr [(''Fe I\<newline>'', [''x 26.0000 y          1              1\<newline>'', ''Fe I\<newline>'', ''a\<newline>'']),
                (''Li I\<newline>'', [''x 03.0000 y          1              1\<newline>'', ''Li I\<newline>'', ''l\<newline>''])])"
    by code_simp
  note r = output_block_order [OF h, of "''out''", unfolded write_file_plain]
  show ?thesis
    by (intro conjI) (rule h r)+
qed


text \<open>
  C7 (as amended). For two input files that are walked to their end, when no element
  line occurs twice among the blocks of the two files (neither in both files nor twice
  in one file), the output is the concatenation of all the blocks of both files, each
  exactly as it was read (header, element line, data lines in the order read), in the
  sorted order of the blocks.
\<close>

theorem disjoint_files_union:
  assumes "open_read fs (path_join input_folder file_a) = Some text_a"
    and "reads (readlines text_a) 1 blocks_a end_a"
    and "\<not> end_a < int (length (readlines text_a))"
    and "open_read fs (path_join input_folder file_b) = Some text_b"
    and "reads (readlines text_b) 1 blocks_b end_b"
    and "\<not> end_b < int (length (readlines text_b))"
    and "distinct (map block_key (blocks_a @ blocks_b))"
  shows "TurboSort fs [file_a, file_b] input_folder output_file =
           Some (write_file fs output_file
             (concat (concat (sort (map block_entry (blocks_a @ blocks_b))))))"
proof -
  have "dir_blocks fs input_folder [file_b] (blocks_b @ [])"
    using assms(4,5,6) dir_done by (rule dir_step)
  with assms(1,2,3) have "dir_blocks fs input_folder [file_a, file_b] (blocks_a @ blocks_b @ [])"
    by (rule dir_step)
  then have "read_all fs input_folder [file_a, file_b] [] = Some (store_all [] (blocks_a @ blocks_b))"
    using read_all_dir_blocks by fastforce
  also have "store_all [] (blocks_a @ blocks_b) =
      Inr ([] @ map (\<lambda>b. (block_key b, block_entry b)) (blocks_a @ blocks_b))"
    using assms(7) by (intro store_all_fresh) simp_all
  finally show ?thesis
    by (simp add: TurboSort_def output_lines_def comp_def)
qed

text \<open>Witness: one block in each file, under different element lines.\<close>

theorem disjoint_files_union_witness:
  "open_read (plain [''d/a'' \<mapsto> ''x 26.0000 y          1              1\<newline>Fe I\<newline>a\<newline>'',
    ''d/b'' \<mapsto> ''x 03.0000 y          1              1\<newline>Li I\<newline>l\<newline>'']) (path_join ''d'' ''a'') =
     Some ''x 26.0000 y          1              1\<newline>Fe I\<newline>a\<newline>'' \<and>
   reads (readlines ''x 26.0000 y          1              1\<newline>Fe I\<newline>a\<newline>'') 1
     [(''x 26.0000 y          1              1\<newline>'', ''Fe I\<newline>'', 1, [''a\<newline>''])] 4 \<and>
   \<not> 4 < int (length (readlines ''x 26.0000 y          1              1\<newline>Fe I\<newline>a\<newline>'')) \<and>
   reads (readlines ''x 03.0000 y          1              1\<newline>Li I\<newline>l\<newline>'') 1
     [(''x 03.0000 y          1              1\<newline>'', ''Li I\<newline>'', 1, [''l\<newline>''])] 4 \<and>
   \<not> 4 < int (length (readlines ''x 03.0000 y          1              1\<newline>Li I\<newline>l\<newline>'')) \<and>
   distinct (map block_key ([(''x 26.0000 y          1              1\<newline>'', ''Fe I\<newline>'', 1, [''a\<newline>''])] @
                            [(''x 03.0000 y          1              1\<newline>'', ''Li I\<newline>'', 1, [''l\<newline>''])])) \<and>
   TurboSort (plain [''d/a'' \<mapsto> ''x 26.0000 y          1              1\<newline>Fe I\<newline>a\<newline>'',
              ''d/b'' \<mapsto> ''x 03.0000 y          1              1\<newline>Li I\<newline>l\<newline>''])
     [''a'', ''b''] ''d'' ''out'' =
     Some (Inr (), (plain [''d/a'' \<mapsto> ''x 26.0000 y          1              1\<newline>Fe I\<newline>a\<newline>'',
                    ''d/b'' \<mapsto> ''x 03.0000 y          1              1\<newline>Li I\<newline>l\<newline>'',
                    ''out'' \<mapsto> ''x 03.0000 y          1              1\<newline>Li I\<newline>l\<newline>x 26.0000 y          1              1\<newline>Fe I\<newline>a\<newline>'']))"
proof -
  let ?ta = "''x 26.0000 y          1              1\<newline>Fe I\<newline>a\<newline>''"
  let ?tb = "''x 03.0000 y          1              1\<newline>Li I\<newline>l\<newline>''"
  let ?fs = "(plain [''d/a'' \<mapsto> ?ta, ''d/b'' \<mapsto> ?tb])"
  let ?ba = "(''x 26.0000 y          1              1\<newline>'', ''Fe I\<newline>'', 1, [''a\<newline>''])"
  let ?bb = "(''x 03.0000 y          1              1\<newline>'', ''Li I\<newline>'', 1, [''l\<newline>''])"
  have a1: "open_read ?fs (path_join ''d'' ''a'') = Some ?ta" by (simp add: path_join_def open_read_plain)
  have la: "(1::int) < int (length (readlines ?ta))" by code_simp
  have rba: "read_block (readlines ?ta) 1 = Inr (?ba, 4)" by code_simp
  have a2: "reads (readlines ?ta) 1 [?ba] 4" by (rule reads_step [OF la rba reads_done])
  have a3: "\<not> 4 < int (length (readlines ?ta))" by code_simp
  have b1: "open_read ?fs (path_join ''d'' ''b'') = Some ?tb" by (simp add: path_join_def open_read_plain)
  have lb: "(1::int) < int (length (readlines ?tb))" by code_simp
  have rbb: "read_block (readlines ?tb) 1 = Inr (?bb, 4)" by code_simp
  have b2: "reads (readlines ?tb) 1 [?bb] 4" by (rule reads_step [OF lb rbb reads_done])
  have b3: "\<not> 4 < int (length (readlines ?tb))" by code_simp
  have dk: "distinct (map block_key ([?ba] @ [?bb]))" by code_simp
  have out: "concat (concat (sort (map block_entry ([?ba] @ [?bb])))) =
      ''x 03.0000 y          1              1\<newline>Li I\<newline>l\<newline>x 26.0000 y          1              1\<newline>Fe I\<newline>a\<newline>''"
    by code_simp
  note r = disjoint_files_union [OF a1 a2 a3 b1 b2 b3 dk, of "''out''",
      unfolded out write_file_plain]
  show ?thesis
    by (intro conjI) (rule a1 a2 a3 b2 b3 dk r)+
qed

text \<open>
  The claim as stated fails: the first file holds two blocks under the same element
  line, the second file a block under another one, so the sets of element lines of the
  two files are disjoint. The two blocks of the first file come out as one block with a
  rewritten header, and the header they were read with is no line of the output.
\<close>

theorem disjoint_files_counterexample:
  "reads (readlines ''x 26.0000 y          1              1\<newline>Fe I\<newline>b\<newline>x 26.0000 y          1              1\<newline>Fe I\<newline>a\<newline>'') 1
     [(''x 26.0000 y          1              1\<newline>'', ''Fe I\<newline>'', 1, [''b\<newline>'']),
      (''x 26.0000 y          1              1\<newline>'', ''Fe I\<newline>'', 1, [''a\<newline>''])] 7 \<and>
   \<not> 7 < int (length (readlines ''x 26.0000 y          1              1\<newline>Fe I\<newline>b\<newline>x 26.0000 y          1              1\<newline>Fe I\<newline>a\<newline>'')) \<and>
   reads (readlines ''x 03.0000 y          1              1\<newline>Li I\<newline>l\<newline>'') 1
     [(''x 03.0000 y          1              1\<newline>'', ''Li I\<newline>'', 1, [''l\<newline>''])] 4 \<and>
   \<not> 4 < int (length (readlines ''x 03.0000 y          1              1\<newline>Li I\<newline>l\<newline>'')) \<and>
   set (map block_key [(''x 26.0000 y          1              1\<newline>'', ''Fe I\<newline>'', 1, [''b\<newline>'']),
                       (''x 26.0000 y          1              1\<newline>'', ''Fe I\<newline>'', 1, [''a\<newline>''])]) \<inter>
   set (map block_key [(''x 03.0000 y          1              1\<newline>'', ''Li I\<newline>'', 1, [''l\<newline>''])]) = {} \<and>
   TurboSort (plain [''d/a'' \<mapsto> ''x 26.0000 y          1              1\<newline>Fe I\<newline>b\<newline>x 26.0000 y          1              1\<newline>Fe I\<newline>a\<newline>'',
              ''d/b'' \<mapsto> ''x 03.0000 y          1              1\<newline>Li I\<newline>l\<newline>''])
     [''a'', ''b''] ''d'' ''out'' =
     Some (Inr (), (plain [''d/a'' \<mapsto> ''x 26.0000 y          1              1\<newline>Fe I\<newline>b\<newline>x 26.0000 y          1              1\<newline>Fe I\<newline>a\<newline>'',
                    ''d/b'' \<mapsto> ''x 03.0000 y          1              1\<newline>Li I\<newline>l\<newline>'',
                    ''out'' \<mapsto> ''x 03.0000 y          1              1\<newline>Li I\<newline>l\<newline>x 26.0000 y          1             2\<newline>Fe I\<newline>a\<newline>b\<newline>''])) \<and>
   ''x 26.0000 y          1              1\<newline>'' \<notin> set (output_lines
     [(''Fe I\<newline>'', [''x 26.0000 y          1             2\<newline>'', ''Fe I\<newline>'', ''a\<newline>'', ''b\<newline>'']),
      (''Li I\<newline>'', [''x 03.0000 y          1              1\<newline>'', ''Li I\<newline>'', ''l\<newline>''])])"
proof -
  let ?ta = "''x 26.0000 y          1              1\<newline>Fe I\<newline>b\<newline>x 26.0000 y          1              1\<newline>Fe I\<newline>a\<newline>''"
  let ?tb = "''x 03.0000 y          1              1\<newline>Li I\<newline>l\<newline>''"
  let ?fs = "(plain [''d/a'' \<mapsto> ?ta, ''d/b'' \<mapsto> ?tb])"
  let ?b1 = "(''x 26.0000 y          1              1\<newline>'', ''Fe I\<newline>'', 1, [''b\<newline>''])"
  let ?b2 = "(''x 26.0000 y          1              1\<newline>'', ''Fe I\<newline>'', 1, [''a\<newline>''])"
  let ?bb = "(''x 03.0000 y          1              1\<newline>'', ''Li I\<newline>'', 1, [''l\<newline>''])"
  let ?d = "[(''Fe I\<newline>'', [''x 26.0000 y          1             2\<newline>'', ''Fe I\<newline>'', ''a\<newline>'', ''b\<newline>'']),
      (''Li I\<newline>'', [''x 03.0000 y          1              1\<newline>'', ''Li I\<newline>'', ''l\<newline>''])]"
  have l1: "(1::int) < int (length (readlines ?ta))" and l4: "(4::int) < int (length (readlines ?ta))"
    by code_simp+
  have r1: "read_block (readlines ?ta) 1 = Inr (?b1, 4)" by code_simp
  have r4: "read_block (readlines ?ta) 4 = Inr (?b2, 7)" by code_simp
  have a2: "reads (readlines ?ta) 1 [?b1, ?b2] 7"
    by (rule reads_step [OF l1 r1 reads_step [OF l4 r4 reads_done]])
  have a3: "\<not> 7 < int (length (readlines ?ta))" by code_simp
  have lb: "(1::int) < int (length (readlines ?tb))" by code_simp
  have rbb: "read_block (readlines ?tb) 1 = Inr (?bb, 4)" by code_simp
  have b2: "reads (readlines ?tb) 1 [?bb] 4" by (rule reads_step [OF lb rbb reads_done])
  have b3: "\<not> 4 < int (length (readlines ?tb))" by code_simp
  have dj: "set (map block_key [?b1, ?b2]) \<inter> set (map block_key [?bb]) = {}"
    by (simp add: block_key_def)
  have ra: "read_all ?fs ''d'' [''a'', ''b''] [] = Some (Inr ?d)" by code_simp
  have ol: "concat (output_lines ?d) =
      ''x 03.0000 y          1              1\<newline>Li I\<newline>l\<newline>x 26.0000 y          1             2\<newline>Fe I\<newline>a\<newline>b\<newline>''"
    by code_simp
  have ts: "TurboSort ?fs [''a'', ''b''] ''d'' ''out'' =
     Some (Inr (), plain [''d/a'' \<mapsto> ?ta, ''d/b'' \<mapsto> ?tb, ''out'' \<mapsto> ''x 03.0000 y          1              1\<newline>Li I\<newline>l\<newline>x 26.0000 y          1             2\<newline>Fe I\<newline>a\<newline>b\<newline>''])"
    unfolding TurboSort_def ra by (simp add: write_file_plain ol)
  have ni: "''x 26.0000 y          1              1\<newline>'' \<notin> set (output_lines ?d)"
    by code_simp
  show ?thesis
    by (intro conjI) (rule a2 a3 b2 b3 dj ts ni)+
qed


lemma mset_concat_map_perm:
  assumes "mset xs = mset ys"
  shows "mset (concat (map f xs)) = mset (concat (map f ys))"
proof -
  have "mset (concat (map f xs)) = sum_mset (image_mset (\<lambda>x. mset (f x)) (mset xs))"
    by (induction xs) simp_all
  also have "\<dots> = sum_mset (image_mset (\<lambda>x. mset (f x)) (mset ys))"
    by (simp only: assms)
  also have "\<dots> = mset (concat (map f ys))"
    by (induction ys) simp_all
  finally show ?thesis .
qed

lemma data_lines_update_fresh:
  "map_of d k = None \<Longrightarrow> data_lines (AList.update k v d) = data_lines d @ drop 2 v"
  by (simp add: update_absent data_lines_def)

lemma data_lines_update_present:
  "map_of d k = Some v0 \<Longrightarrow>
   mset (data_lines (AList.update k v d)) + mset (drop 2 v0) =
     mset (data_lines d) + mset (drop 2 v)"
  by (induction d) (auto simp: data_lines_def split: if_splits)

lemma store_block_data_lines:
  assumes "dict_ok d" and "store_block d b = Inr d'"
  shows "mset (data_lines d') = mset (data_lines d) + mset (block_data b)"
proof -
  obtain header k n sp where b: "b = (header, k, n, sp)" by (cases b)
  from assms have "mset (data_lines d') = mset (data_lines d) + mset sp" unfolding b
  proof (cases rule: store_block_cases)
    case fresh
    then show ?thesis by (simp add: data_lines_update_fresh)
  next
    case (merged h ls previous)
    from data_lines_update_present [OF merged(1),
        of "rebuild_header h previous (n + previous) # k # sort (ls @ sp)"]
    show ?thesis by (simp add: merged(3))
  qed
  then show ?thesis by (simp add: block_data_def b)
qed

lemma store_all_data_lines:
  "dict_ok d \<Longrightarrow> store_all d bs = Inr d' \<Longrightarrow>
   mset (data_lines d') = mset (data_lines d) + mset (concat (map block_data bs))"
proof (induction bs arbitrary: d)
  case Nil
  then show ?case by simp
next
  case (Cons b bs)
  from Cons.prems(2) obtain d1 where s: "store_block d b = Inr d1" "store_all d1 bs = Inr d'"
    by (auto split: sum.splits)
  from Cons.prems(1) s(1) have "dict_ok d1" by (rule store_block_ok)
  with Cons.IH s(2) have "mset (data_lines d') = mset (data_lines d1) + mset (concat (map block_data bs))"
    by blast
  with store_block_data_lines [OF Cons.prems(1) s(1)] show ?case by simp
qed

lemma output_data_lines:
  "mset (concat (map (drop 2) (sort (map snd d)))) = mset (data_lines d)"
proof -
  have "mset (sort (map snd d)) = mset (map snd d)" by simp
  then have "mset (concat (map (drop 2) (sort (map snd d)))) =
      mset (concat (map (drop 2) (map snd d)))"
    by (rule mset_concat_map_perm)
  also have "concat (map (drop 2) (map snd d)) = data_lines d"
    by (simp add: data_lines_def comp_def case_prod_unfold)
  finally show ?thesis .
qed

lemma write_file_frame:
  assumes "write_file fs path contents = (r, fs')"
  shows "locate fs' = locate fs \<and> writable fs' = writable fs \<and>
         (\<forall>i. locate fs path \<noteq> Some i \<longrightarrow> files fs' i = files fs i) \<and>
         (\<forall>p. locate fs p \<noteq> locate fs path \<longrightarrow> open_read fs' p = open_read fs p) \<and>
         ((\<exists>e. r = Inl e) \<longrightarrow> fs' = fs)"
  using assms
  by (auto simp: write_file_def open_read_def split: option.splits if_splits)

lemma TurboSort_frame:
  assumes "TurboSort fs listing input_folder output_file = Some (r, fs')"
  shows "locate fs' = locate fs \<and> writable fs' = writable fs \<and>
         (\<forall>i. locate fs output_file \<noteq> Some i \<longrightarrow> files fs' i = files fs i) \<and>
         (\<forall>p. locate fs p \<noteq> locate fs output_file \<longrightarrow> open_read fs' p = open_read fs p) \<and>
         ((\<exists>e. r = Inl e) \<longrightarrow> fs' = fs)"
proof (cases "read_all fs input_folder listing []")
  case None
  with assms show ?thesis by (simp add: TurboSort_def)
next
  case (Some res)
  show ?thesis
  proof (cases res)
    case (Inl e)
    with Some assms show ?thesis by (auto simp: TurboSort_def)
  next
    case (Inr d)
    with Some assms have "write_file fs output_file (concat (output_lines d)) = (r, fs')"
      by (simp add: TurboSort_def)
    then show ?thesis by (rule write_file_frame)
  qed
qed

lemma write_file_opened:
  "locate fs path = Some i \<Longrightarrow> writable fs i \<Longrightarrow>
   write_file fs path contents = (Inr (), fs\<lparr>files := (files fs)(i \<mapsto> contents)\<rparr>)"
  by (simp add: write_file_def)

lemma write_file_refused:
  "\<forall>i. locate fs path = Some i \<longrightarrow> \<not> writable fs i \<Longrightarrow>
   write_file fs path contents = (Inl OSError, fs)"
  by (simp add: write_file_def split: option.splits)

lemma rebuild_header_prefix:
  "prefix (take 27 stored) (rebuild_header stored previous new_count)"
  by (simp add: rebuild_header_eq)

lemma rebuild_header_columns:
  "27 \<le> length stored \<Longrightarrow> take 27 (rebuild_header stored previous new_count) = take 27 stored"
  by (simp add: rebuild_header_eq)

text \<open>
  C9 (as amended). A call that returns changes no file but the one the output path
  stands for: which file a path stands for and which files may be written stay as they
  were, and every path that stands for another file than the output path reads as
  before. So an input file is left as it was unless the output path stands for that very
  file, under the same or another path string. A call that fails, while reading or
  because the output cannot be opened for writing, leaves the file system as it was.
  When every listed file is walked to its end and the blocks are stored without failure,
  the call opens the output path and, once it is open, writes this one file, the
  concatenation of the output lines; the data lines of the output are, as a multiset, the
  data lines read (each exactly as read, none lost or altered). A rebuilt header begins
  with the first 27 characters of the stored header, and has them as its columns 0 to 26
  when the stored header has at least 27 characters.
\<close>

theorem lines_and_files_preserved:
  "(\<forall>r fs'. TurboSort fs listing input_folder output_file = Some (r, fs') \<longrightarrow>
      locate fs' = locate fs \<and> writable fs' = writable fs \<and>
      (\<forall>i. locate fs output_file \<noteq> Some i \<longrightarrow> files fs' i = files fs i) \<and>
      (\<forall>p. locate fs p \<noteq> locate fs output_file \<longrightarrow> open_read fs' p = open_read fs p) \<and>
      ((\<exists>e. r = Inl e) \<longrightarrow> fs' = fs)) \<and>
   (dir_blocks fs input_folder listing bs \<and> store_all [] bs = Inr d \<longrightarrow>
      TurboSort fs listing input_folder output_file =
        Some (write_file fs output_file (concat (output_lines d))) \<and>
      output_lines d = concat (sort (map snd d)) \<and>
      mset (concat (map (drop 2) (sort (map snd d)))) = mset (concat (map block_data bs))) \<and>
   (\<forall>i. locate fs path = Some i \<and> writable fs i \<longrightarrow>
      write_file fs path contents = (Inr (), fs\<lparr>files := (files fs)(i \<mapsto> contents)\<rparr>)) \<and>
   ((\<forall>i. locate fs path = Some i \<longrightarrow> \<not> writable fs i) \<longrightarrow>
      write_file fs path contents = (Inl OSError, fs)) \<and>
   prefix (take 27 stored) (rebuild_header stored previous new_count) \<and>
   (27 \<le> length stored \<longrightarrow>
      take 27 (rebuild_header stored previous new_count) = take 27 stored)"
proof -
  have frame: "\<forall>r fs'. TurboSort fs listing input_folder output_file = Some (r, fs') \<longrightarrow>
      locate fs' = locate fs \<and> writable fs' = writable fs \<and>
      (\<forall>i. locate fs output_file \<noteq> Some i \<longrightarrow> files fs' i = files fs i) \<and>
      (\<forall>p. locate fs p \<noteq> locate fs output_file \<longrightarrow> open_read fs' p = open_read fs p) \<and>
      ((\<exists>e. r = Inl e) \<longrightarrow> fs' = fs)"
    using TurboSort_frame by blast
  have run: "TurboSort fs listing input_folder output_file =
        Some (write_file fs output_file (concat (output_lines d))) \<and>
      output_lines d = concat (sort (map snd d)) \<and>
      mset (concat (map (drop 2) (sort (map snd d)))) = mset (concat (map block_data bs))"
    if a: "dir_blocks fs input_folder listing bs \<and> store_all [] bs = Inr d"
  proof -
    from a have "read_all fs input_folder listing [] = Some (Inr d)"
      using read_all_dir_blocks [of fs input_folder listing bs "[]"] by simp
    then have "TurboSort fs listing input_folder output_file =
        Some (write_file fs output_file (concat (output_lines d)))"
      by (simp add: TurboSort_def)
    moreover have "output_lines d = concat (sort (map snd d))"
      by (simp add: output_lines_def)
    moreover from a
    have "mset (data_lines d) = mset (data_lines []) + mset (concat (map block_data bs))"
      using store_all_data_lines [OF dict_ok_Nil] by blast
    then have "mset (concat (map (drop 2) (sort (map snd d)))) =
        mset (concat (map block_data bs))"
      by (simp add: output_data_lines data_lines_def)
    ultimately show ?thesis by blast
  qed
  have opened: "\<forall>i. locate fs path = Some i \<and> writable fs i \<longrightarrow>
      write_file fs path contents = (Inr (), fs\<lparr>files := (files fs)(i \<mapsto> contents)\<rparr>)"
    by (simp add: write_file_opened)
  have refused: "(\<forall>i. locate fs path = Some i \<longrightarrow> \<not> writable fs i) \<longrightarrow>
      write_file fs path contents = (Inl OSError, fs)"
    using write_file_refused by blast
  have cols: "27 \<le> length stored \<longrightarrow>
      take 27 (rebuild_header stored previous new_count) = take 27 stored"
    by (simp add: rebuild_header_columns)
  have run': "dir_blocks fs input_folder listing bs \<and> store_all [] bs = Inr d \<longrightarrow>
      TurboSort fs listing input_folder output_file =
        Some (write_file fs output_file (concat (output_lines d))) \<and>
      output_lines d = concat (sort (map snd d)) \<and>
      mset (concat (map (drop 2) (sort (map snd d)))) = mset (concat (map block_data bs))"
    using run by blast
  show ?thesis
    by (intro conjI) (rule frame run' opened refused rebuild_header_prefix cols)+
qed

text \<open>
  Witness: two files under the same element line, in a plain file system. The output
  is written, the first input file reads as before, the three data lines are those read
  and columns 0 to 26 of the header stay. In a file system where the output path runs
  through a missing directory, the output is not opened and nothing changes.
\<close>

theorem lines_and_files_preserved_witness:
  "dir_blocks (plain [''d/a'' \<mapsto> ''x 26.0000 y          1              2\<newline>Fe I\<newline>b\<newline>a\<newline>'',
               ''d/b'' \<mapsto> ''x 26.0000 y          1              1\<newline>Fe I\<newline>c\<newline>'']) ''d'' [''a'', ''b'']
     ([(''x 26.0000 y          1              2\<newline>'', ''Fe I\<newline>'', 2, [''b\<newline>'', ''a\<newline>''])] @
      [(''x 26.0000 y          1              1\<newline>'', ''Fe I\<newline>'', 1, [''c\<newline>''])] @ []) \<and>
   store_all []
     ([(''x 26.0000 y          1              2\<newline>'', ''Fe I\<newline>'', 2, [''b\<newline>'', ''a\<newline>''])] @
      [(''x 26.0000 y          1              1\<newline>'', ''Fe I\<newline>'', 1, [''c\<newline>''])] @ []) =
     Inr [(''Fe I\<newline>'', [''x 26.0000 y          1             3\<newline>'', ''Fe I\<newline>'', ''a\<newline>'', ''b\<newline>'', ''c\<newline>''])] \<and>
   TurboSort (plain [''d/a'' \<mapsto> ''x 26.0000 y          1              2\<newline>Fe I\<newline>b\<newline>a\<newline>'',
              ''d/b'' \<mapsto> ''x 26.0000 y          1              1\<newline>Fe I\<newline>c\<newline>'']) [''a'', ''b''] ''d'' ''out'' =
     Some (Inr (), plain [''d/a'' \<mapsto> ''x 26.0000 y          1              2\<newline>Fe I\<newline>b\<newline>a\<newline>'',
                    ''d/b'' \<mapsto> ''x 26.0000 y          1              1\<newline>Fe I\<newline>c\<newline>'',
                    ''out'' \<mapsto> ''x 26.0000 y          1             3\<newline>Fe I\<newline>a\<newline>b\<newline>c\<newline>'']) \<and>
   open_read (plain [''d/a'' \<mapsto> ''x 26.0000 y          1              2\<newline>Fe I\<newline>b\<newline>a\<newline>'',
    ''d/b'' \<mapsto> ''x 26.0000 y          1              1\<newline>Fe I\<newline>c\<newline>'',
    ''out'' \<mapsto> ''x 26.0000 y          1             3\<newline>Fe I\<newline>a\<newline>b\<newline>c\<newline>'']) ''d/a'' =
   open_read (plain [''d/a'' \<mapsto> ''x 26.0000 y          1              2\<newline>Fe I\<newline>b\<newline>a\<newline>'',
    ''d/b'' \<mapsto> ''x 26.0000 y          1              1\<newline>Fe I\<newline>c\<newline>'']) ''d/a'' \<and>
   mset (concat (map (drop 2) (sort (map snd
       [(''Fe I\<newline>'', [''x 26.0000 y          1             3\<newline>'', ''Fe I\<newline>'', ''a\<newline>'', ''b\<newline>'', ''c\<newline>''])])))) =
     mset (concat (map block_data
       ([(''x 26.0000 y          1              2\<newline>'', ''Fe I\<newline>'', 2, [''b\<newline>'', ''a\<newline>''])] @
        [(''x 26.0000 y          1              1\<newline>'', ''Fe I\<newline>'', 1, [''c\<newline>''])] @ []))) \<and>
   27 \<le> length ''x 26.0000 y          1              2\<newline>'' \<and>
   take 27 (rebuild_header ''x 26.0000 y          1              2\<newline>'' 2 3) =
     take 27 ''x 26.0000 y          1              2\<newline>'' \<and>
   write_file
     \<lparr>locate = (\<lambda>p. if p = ''nodir/out'' then None else Some p),
      files = [''d/a'' \<mapsto> ''a\<newline>''], writable = (\<lambda>i. True)\<rparr> ''nodir/out'' ''x\<newline>'' =
     (Inl OSError,
      \<lparr>locate = (\<lambda>p. if p = ''nodir/out'' then None else Some p),
       files = [''d/a'' \<mapsto> ''a\<newline>''], writable = (\<lambda>i. True)\<rparr>)"
proof -
  let ?ta = "''x 26.0000 y          1              2\<newline>Fe I\<newline>b\<newline>a\<newline>''"
  let ?tb = "''x 26.0000 y          1              1\<newline>Fe I\<newline>c\<newline>''"
  let ?H = "''x 26.0000 y          1              2\<newline>''"
  let ?fs = "plain [''d/a'' \<mapsto> ?ta, ''d/b'' \<mapsto> ?tb]"
  let ?ba = "(?H, ''Fe I\<newline>'', 2, [''b\<newline>'', ''a\<newline>''])"
  let ?bb = "(''x 26.0000 y          1              1\<newline>'', ''Fe I\<newline>'', 1, [''c\<newline>''])"
  let ?d = "[(''Fe I\<newline>'', [''x 26.0000 y          1             3\<newline>'', ''Fe I\<newline>'', ''a\<newline>'', ''b\<newline>'', ''c\<newline>''])]"
  let ?out = "''x 26.0000 y          1             3\<newline>Fe I\<newline>a\<newline>b\<newline>c\<newline>''"
  let ?fs2 = "\<lparr>locate = (\<lambda>p. if p = ''nodir/out'' then None else Some p),
      files = [''d/a'' \<mapsto> ''a\<newline>''], writable = (\<lambda>i::string. True)\<rparr>"
  have a1: "open_read ?fs (path_join ''d'' ''a'') = Some ?ta"
    by (simp add: path_join_def open_read_plain)
  have la: "(1::int) < int (length (readlines ?ta))" by code_simp
  have rba: "read_block (readlines ?ta) 1 = Inr (?ba, 5)" by code_simp
  have a2: "reads (readlines ?ta) 1 [?ba] 5" by (rule reads_step [OF la rba reads_done])
  have a3: "\<not> 5 < int (length (readlines ?ta))" by code_simp
  have b1: "open_read ?fs (path_join ''d'' ''b'') = Some ?tb"
    by (simp add: path_join_def open_read_plain)
  have lb: "(1::int) < int (length (readlines ?tb))" by code_simp
  have rbb: "read_block (readlines ?tb) 1 = Inr (?bb, 4)" by code_simp
  have b2: "reads (readlines ?tb) 1 [?bb] 4" by (rule reads_step [OF lb rbb reads_done])
  have b3: "\<not> 4 < int (length (readlines ?tb))" by code_simp
  have "dir_blocks ?fs ''d'' [''b''] ([?bb] @ [])"
    using b1 b2 b3 dir_done by (rule dir_step)
  with a1 a2 a3 have db: "dir_blocks ?fs ''d'' [''a'', ''b''] ([?ba] @ [?bb] @ [])"
    by (rule dir_step)
  have sa: "store_all [] ([?ba] @ [?bb] @ []) = Inr ?d" by code_simp
  have ol: "concat (output_lines ?d) = ?out" by code_simp
  have len: "27 \<le> length ?H" by simp
  have ne: "locate ?fs ''d/a'' \<noteq> locate ?fs ''out''" by (simp add: plain_def)
  have no: "\<forall>i. locate ?fs2 ''nodir/out'' = Some i \<longrightarrow> \<not> writable ?fs2 i" by simp
  note t = lines_and_files_preserved [where fs = ?fs and listing = "[''a'', ''b'']"
      and input_folder = "''d''" and output_file = "''out''" and bs = "[?ba] @ [?bb] @ []"
      and d = ?d and stored = ?H and previous = 2 and new_count = 3]
  note t1 = t [THEN conjunct1]
    and t2 = t [THEN conjunct2, THEN conjunct1]
    and t6 = t [THEN conjunct2, THEN conjunct2, THEN conjunct2, THEN conjunct2, THEN conjunct2]
  note c = mp [OF t2 conjI [OF db sa]]
  note ts = c [THEN conjunct1, unfolded ol write_file_plain]
  note ms = c [THEN conjunct2, THEN conjunct2]
  note fr = t1 [THEN spec, THEN spec, THEN mp, OF ts, THEN conjunct2, THEN conjunct2,
      THEN conjunct2, THEN conjunct1, THEN spec, THEN mp, OF ne]
  note tk = mp [OF t6 len]
  note u = lines_and_files_preserved [where fs = ?fs2 and path = "''nodir/out''"
      and contents = "''x\<newline>''"]
  note wf = mp [OF u [THEN conjunct2, THEN conjunct2, THEN conjunct2, THEN conjunct1] no]
  show ?thesis
    by (intro conjI) (rule db sa ts fr ms len tk wf)+
qed

text \<open>
  The claim as stated fails: the output path stands for the input file. The file is
  read, and then overwritten with its two blocks in sorted order; this happens when the
  output path is the path the file was read by, and also when it is another path of the
  same file.
\<close>

theorem input_file_overwritten_counterexample:
  "path_join ''d'' ''a'' = ''d/a'' \<and>
   open_read (plain [''d/a'' \<mapsto> ''x 26.0000 y          1              1\<newline>Fe I\<newline>a\<newline>x 03.0000 y          1              1\<newline>Li I\<newline>l\<newline>''])
     (path_join ''d'' ''a'') =
     Some ''x 26.0000 y          1              1\<newline>Fe I\<newline>a\<newline>x 03.0000 y          1              1\<newline>Li I\<newline>l\<newline>'' \<and>
   TurboSort (plain [''d/a'' \<mapsto> ''x 26.0000 y          1              1\<newline>Fe I\<newline>a\<newline>x 03.0000 y          1              1\<newline>Li I\<newline>l\<newline>''])
     [''a''] ''d'' ''d/a'' =
     Some (Inr (), plain [''d/a'' \<mapsto> ''x 03.0000 y          1              1\<newline>Li I\<newline>l\<newline>x 26.0000 y          1              1\<newline>Fe I\<newline>a\<newline>'']) \<and>
   ''x 03.0000 y          1              1\<newline>Li I\<newline>l\<newline>x 26.0000 y          1              1\<newline>Fe I\<newline>a\<newline>'' \<noteq>
   ''x 26.0000 y          1              1\<newline>Fe I\<newline>a\<newline>x 03.0000 y          1              1\<newline>Li I\<newline>l\<newline>'' \<and>
   TurboSort
     \<lparr>locate = (\<lambda>p. if p = ''./d/a'' then Some ''d/a'' else Some p),
      files = [''d/a'' \<mapsto> ''x 26.0000 y          1              1\<newline>Fe I\<newline>a\<newline>x 03.0000 y          1              1\<newline>Li I\<newline>l\<newline>''],
      writable = (\<lambda>i. True)\<rparr>
     [''a''] ''d'' ''./d/a'' =
     Some (Inr (),
       \<lparr>locate = (\<lambda>p. if p = ''./d/a'' then Some ''d/a'' else Some p),
        files = [''d/a'' \<mapsto> ''x 03.0000 y          1              1\<newline>Li I\<newline>l\<newline>x 26.0000 y          1              1\<newline>Fe I\<newline>a\<newline>''],
        writable = (\<lambda>i. True)\<rparr>)"
proof -
  let ?t = "''x 26.0000 y          1              1\<newline>Fe I\<newline>a\<newline>x 03.0000 y          1              1\<newline>Li I\<newline>l\<newline>''"
  let ?t' = "''x 03.0000 y          1              1\<newline>Li I\<newline>l\<newline>x 26.0000 y          1              1\<newline>Fe I\<newline>a\<newline>''"
  let ?d = "[(''Fe I\<newline>'', [''x 26.0000 y          1              1\<newline>'', ''Fe I\<newline>'', ''a\<newline>'']),
             (''Li I\<newline>'', [''x 03.0000 y          1              1\<newline>'', ''Li I\<newline>'', ''l\<newline>''])]"
  let ?fsA = "\<lparr>locate = (\<lambda>p. if p = ''./d/a'' then Some ''d/a'' else Some p),
      files = [''d/a'' \<mapsto> ?t], writable = (\<lambda>i::string. True)\<rparr>"
  have pj: "path_join ''d'' ''a'' = ''d/a''" by (simp add: path_join_def)
  have rd: "open_read (plain [''d/a'' \<mapsto> ?t]) (path_join ''d'' ''a'') = Some ?t"
    by (simp add: path_join_def open_read_plain)
  have ra: "read_all (plain [''d/a'' \<mapsto> ?t]) ''d'' [''a''] [] = Some (Inr ?d)" by code_simp
  have ol: "concat (output_lines ?d) = ?t'" by code_simp
  have ts: "TurboSort (plain [''d/a'' \<mapsto> ?t]) [''a''] ''d'' ''d/a'' =
     Some (Inr (), plain [''d/a'' \<mapsto> ?t'])"
    unfolding TurboSort_def ra by (simp add: write_file_plain ol)
  have df: "?t' \<noteq> ?t" by simp
  have rA: "read_all ?fsA ''d'' [''a''] [] = Some (Inr ?d)" by code_simp
  have tA: "TurboSort ?fsA [''a''] ''d'' ''./d/a'' =
     Some (Inr (), \<lparr>locate = (\<lambda>p. if p = ''./d/a'' then Some ''d/a'' else Some p),
        files = [''d/a'' \<mapsto> ?t'], writable = (\<lambda>i::string. True)\<rparr>)"
    unfolding TurboSort_def rA by (simp add: write_file_def ol)
  show ?thesis
    by (intro conjI) (rule pj rd ts df tA)+
qed


section \<open>Counts and data lines\<close>

lemma dropWhile_blanks:
  assumes "w \<noteq> []" and "hd w \<noteq> CHR '' ''"
  shows "dropWhile (\<lambda>x. x = CHR '' '') (replicate a CHR '' '' @ w @ t) = w @ t"
proof -
  have "dropWhile (\<lambda>x. x = CHR '' '') (replicate a CHR '' '' @ w @ t) =
      dropWhile (\<lambda>x. x = CHR '' '') (w @ t)"
    by (rule dropWhile_append2) simp
  also have "\<dots> = w @ t" using assms by (cases w) auto
  finally show ?thesis .
qed

lemma std_header_iff:
  "std_header h c \<longleftrightarrow>
     (\<exists>p a. h = p @ replicate a CHR '' '' @ py_str c @ [CHR 0x0A] \<and> length p = 27 \<and>
        length (split_ws p) = 4 \<and> (0 < a \<or> is_space (last p)))"
proof
  assume s: "std_header h c"
  let ?P = "\<lambda>x. x = CHR '' ''"
  let ?r = "drop 27 h"
  let ?a = "length (takeWhile ?P ?r)"
  from s have body: "dropWhile ?P ?r = py_str c @ [CHR 0x0A]"
    and p: "length (take 27 h) = 27" "length (split_ws (take 27 h)) = 4"
    and sep: "dropWhile ?P ?r \<noteq> ?r \<or> is_space (last (take 27 h))"
    by (simp_all add: std_header_def Let_def)
  have "\<forall>y\<in>set (takeWhile ?P ?r). y = CHR '' ''"
    by (auto dest: set_takeWhileD)
  then have tw: "takeWhile ?P ?r = replicate ?a CHR '' ''"
    by (simp add: replicate_length_same)
  have "?r = takeWhile ?P ?r @ dropWhile ?P ?r" by simp
  with tw body have r: "?r = replicate ?a CHR '' '' @ py_str c @ [CHR 0x0A]" by simp
  have "h = take 27 h @ ?r" by simp
  with r have h: "h = take 27 h @ replicate ?a CHR '' '' @ py_str c @ [CHR 0x0A]" by simp
  have "0 < ?a \<or> is_space (last (take 27 h))"
  proof (cases "?a = 0")
    case True
    then have "takeWhile ?P ?r = []" by simp
    then have "dropWhile ?P ?r = ?r" by (metis append_Nil takeWhile_dropWhile_id)
    with sep show ?thesis by simp
  next
    case False
    then show ?thesis by simp
  qed
  with h p show "\<exists>p a. h = p @ replicate a CHR '' '' @ py_str c @ [CHR 0x0A] \<and> length p = 27 \<and>
        length (split_ws p) = 4 \<and> (0 < a \<or> is_space (last p))"
    by blast
next
  assume "\<exists>p a. h = p @ replicate a CHR '' '' @ py_str c @ [CHR 0x0A] \<and> length p = 27 \<and>
        length (split_ws p) = 4 \<and> (0 < a \<or> is_space (last p))"
  then obtain p a where h: "h = p @ replicate a CHR '' '' @ py_str c @ [CHR 0x0A]"
    and p: "length p = 27" "length (split_ws p) = 4" and sep: "0 < a \<or> is_space (last p)"
    by blast
  let ?P = "\<lambda>x. x = CHR '' ''"
  have tk: "take 27 h = p" and dr: "drop 27 h = replicate a CHR '' '' @ py_str c @ [CHR 0x0A]"
    using p(1) by (simp_all add: h)
  have body: "dropWhile ?P (drop 27 h) = py_str c @ [CHR 0x0A]"
    unfolding dr by (rule dropWhile_blanks) (simp_all add: py_str_nonempty py_str_hd_not_blank)
  have "dropWhile ?P (drop 27 h) \<noteq> drop 27 h \<or> is_space (last p)"
  proof (cases "0 < a")
    case True
    then obtain a' where "a = Suc a'" by (cases a) auto
    then have "hd (drop 27 h) = CHR '' ''" by (simp add: dr)
    moreover have "hd (dropWhile ?P (drop 27 h)) \<noteq> CHR '' ''"
      using py_str_nonempty [of c] py_str_hd_not_blank [of c] by (simp add: body)
    ultimately show ?thesis by auto
  next
    case False
    with sep show ?thesis by simp
  qed
  with body p show "std_header h c"
    by (simp add: std_header_def Let_def tk)
qed

lemma split_ws_std:
  assumes "length p = 27" and "0 < a \<or> is_space (last p)"
  shows "split_ws (p @ replicate a CHR '' '' @ py_str c @ [CHR 0x0A]) = split_ws p @ [py_str c]"
proof -
  have tok: "split_ws (replicate n CHR '' '' @ py_str c @ [CHR 0x0A]) = [py_str c]" for n
    using split_ws_token_tail [of "py_str c" "[CHR 0x0A]"]
    by (simp add: split_ws_blanks py_str_nonempty py_str_no_space is_space_newline)
  show ?thesis
  proof (cases "0 < a")
    case True
    then obtain a' where a: "a = Suc a'" by (cases a) auto
    have "split_ws (p @ CHR '' '' # (replicate a' CHR '' '' @ py_str c @ [CHR 0x0A])) =
        split_ws p @ split_ws (replicate a' CHR '' '' @ py_str c @ [CHR 0x0A])"
      by (rule split_ws_sep) (rule is_space_blank)
    then show ?thesis by (simp add: a tok)
  next
    case False
    with assms(2) have sp: "is_space (last p)" and a: "a = 0" by simp_all
    from assms(1) have ne: "p \<noteq> []" by auto
    then have pp: "p = butlast p @ [last p]" by simp
    have "split_ws (butlast p @ last p # (py_str c @ [CHR 0x0A])) =
        split_ws (butlast p) @ split_ws (py_str c @ [CHR 0x0A])"
      using sp by (rule split_ws_sep)
    moreover have "split_ws (butlast p @ last p # []) = split_ws (butlast p) @ split_ws []"
      using sp by (rule split_ws_sep)
    moreover have "butlast p @ last p # (py_str c @ [CHR 0x0A]) = p @ py_str c @ [CHR 0x0A]"
      using ne by simp
    moreover have "butlast p @ last p # [] = p" using ne by simp
    ultimately show ?thesis
      using tok [of 0] by (simp add: a split_ws_Nil)
  qed
qed

lemma std_header_count:
  assumes "std_header h c"
  shows "declared_count h = Inr c"
proof -
  from assms obtain p a where h: "h = p @ replicate a CHR '' '' @ py_str c @ [CHR 0x0A]"
    and p: "length p = 27" "length (split_ws p) = 4" and sep: "0 < a \<or> is_space (last p)"
    unfolding std_header_iff by blast
  have "split_ws h = split_ws p @ [py_str c]"
    unfolding h using p(1) sep by (rule split_ws_std)
  then have "py_index (split_ws h) 4 = Inr (py_str c)"
    using p(2) by (simp add: py_index_def nth_append)
  then show ?thesis by (simp add: declared_count_def py_int_py_str)
qed

lemma py_str_not_in_newline: "\<not> sublist (py_str c) [CHR 0x0A]"
proof
  assume "sublist (py_str c) [CHR 0x0A]"
  then have "set (py_str c) \<subseteq> {CHR 0x0A}" using set_mono_sublist by fastforce
  moreover have "hd (py_str c) \<in> set (py_str c)" using py_str_nonempty by simp
  ultimately have "hd (py_str c) = CHR 0x0A" by auto
  with \<open>hd (py_str c) \<in> set (py_str c)\<close> py_str_no_space [of "CHR 0x0A" c] is_space_newline
  show False by simp
qed

lemma justify10_field:
  assumes "length w \<le> 9"
  shows "justify10 (replicate a CHR '' '' @ w @ [x]) = replicate (9 - length w) CHR '' '' @ w @ [x]"
proof -
  consider "10 < a + length w + 1" | "a + length w + 1 < 10" | "a + length w + 1 = 10"
    by linarith
  then show ?thesis
  proof cases
    case 1
    with assms have "a + length w + 1 - 10 \<le> a" "a - (a + length w + 1 - 10) = 9 - length w"
      by simp_all
    with 1 show ?thesis by (simp add: justify10_def)
  next
    case 2
    then have "replicate (10 - (a + length w + 1)) CHR '' '' @ replicate a CHR '' '' =
        replicate (9 - length w) CHR '' ''"
      by (simp add: replicate_add [symmetric])
    with 2 show ?thesis by (simp add: justify10_def)
  next
    case 3
    then have "a = 9 - length w" by simp
    with 3 show ?thesis by (simp add: justify10_def)
  qed
qed

lemma std_header_rebuild:
  assumes "std_header h c"
    and "length (py_str c') \<le> 8 \<or> (length (py_str c') \<le> 9 \<and> is_space (last (take 27 h)))"
  shows "std_header (rebuild_header h c c') c'"
proof -
  from assms(1) obtain p a where h: "h = p @ replicate a CHR '' '' @ py_str c @ [CHR 0x0A]"
    and p: "length p = 27" "length (split_ws p) = 4"
    unfolding std_header_iff by blast
  have tk: "take 27 h = p" and dr: "drop 27 h = replicate a CHR '' '' @ py_str c @ [CHR 0x0A]"
    using p(1) by (simp_all add: h)
  have len: "length (py_str c') \<le> 9" using assms(2) by auto
  have "replace (drop 27 h) (py_str c) (py_str c') = replicate a CHR '' '' @ py_str c' @ [CHR 0x0A]"
    unfolding dr using py_str_not_in_newline by (rule replace_count_field)
  then have "rebuild_header h c c' =
      p @ replicate (9 - length (py_str c')) CHR '' '' @ py_str c' @ [CHR 0x0A]"
    by (simp add: rebuild_header_eq tk justify10_field [OF len])
  moreover have "0 < 9 - length (py_str c') \<or> is_space (last p)"
    using assms(2) tk by auto
  ultimately show ?thesis
    unfolding std_header_iff using p by blast
qed

lemma py_str_short: "0 \<le> s \<Longrightarrow> s < 10 ^ 8 \<Longrightarrow> length (py_str s) \<le> 8"
proof -
  assume "0 \<le> s" "s < 10 ^ 8"
  then have "nat s < 10 ^ 8" by (simp add: nat_less_iff)
  then have "length (digits (nat s)) \<le> 8" by (rule length_digits_le) simp
  with \<open>0 \<le> s\<close> show ?thesis by (simp add: py_str_def)
qed

lemma consistent_dict_ok: "consistent d \<Longrightarrow> dict_ok d"
  by (auto simp: consistent_def dict_ok_def list_all_iff entry_consistent_def entry_ok_def)

lemma consistent_update:
  assumes "consistent d" and "entry_consistent (k, v)"
  shows "consistent (AList.update k v d)"
proof -
  from assms have "\<forall>e\<in>set (AList.update k v d). entry_consistent e"
    using set_update_subset [of k v d] by (auto simp: consistent_def list_all_iff)
  with assms(1) show ?thesis
    by (simp add: consistent_def list_all_iff distinct_update)
qed

lemma entry_le_data_lines: "(k, val) \<in> set d \<Longrightarrow> length (drop 2 val) \<le> length (data_lines d)"
  by (induction d) (auto simp: data_lines_def)

lemma merge_store:
  assumes "map_of d k = Some (stored # k' # ls)"
    and "std_header stored (int (length ls))"
  shows "store_block d (header, k, n, sp) =
           Inr (AList.update k
             (rebuild_header stored (int (length ls)) (n + int (length ls)) # k' # sort (ls @ sp)) d)"
  using assms(1) std_header_count [OF assms(2)] by (rule store_block_merge)

lemma py_str_length_9: "0 \<le> s \<Longrightarrow> s < 10 ^ 9 \<Longrightarrow> length (py_str s) \<le> 9"
proof -
  assume "0 \<le> s" "s < 10 ^ 9"
  then have "nat s < 10 ^ 9" by (simp add: nat_less_iff)
  then have "length (digits (nat s)) \<le> 9" by (rule length_digits_le) simp
  with \<open>0 \<le> s\<close> show ?thesis by (simp add: py_str_def)
qed

lemma merge_header_std:
  assumes "std_header stored (int (length ls))"
    and "int (length sp) = n"
    and "int (length ls) + n < 10 ^ 8 \<or>
         (int (length ls) + n < 10 ^ 9 \<and> is_space (stored ! 26))"
  shows "std_header (rebuild_header stored (int (length ls)) (n + int (length ls)))
           (int (length (sort (ls @ sp))))"
proof -
  let ?s = "n + int (length ls)"
  have nonneg: "0 \<le> ?s" using assms(2) by auto
  have l27: "length (take 27 stored) = 27" using assms(1) by (simp add: std_header_def Let_def)
  then have "take 27 stored \<noteq> []" by auto
  then have "last (take 27 stored) = take 27 stored ! (length (take 27 stored) - 1)"
    by (rule last_conv_nth)
  also have "\<dots> = take 27 stored ! 26" by (simp only: l27) simp
  also have "\<dots> = stored ! 26" by simp
  finally have "last (take 27 stored) = stored ! 26" .
  then have "length (py_str ?s) \<le> 8 \<or>
      (length (py_str ?s) \<le> 9 \<and> is_space (last (take 27 stored)))"
    using assms(3) nonneg py_str_short [of ?s] py_str_length_9 [of ?s] by (auto simp: add.commute)
  with assms(1) have "std_header (rebuild_header stored (int (length ls)) ?s) ?s"
    by (rule std_header_rebuild)
  then show ?thesis
    using assms(2) by (simp add: add.commute)
qed

lemma store_block_consistent:
  assumes "consistent d" and "good_block b"
    and "length (data_lines d) + length (block_data b) < 10 ^ 8"
  shows "\<exists>d'. store_block d b = Inr d' \<and> consistent d'"
proof -
  obtain header k n sp where b: "b = (header, k, n, sp)" by (cases b)
  from assms(2) have hdr: "std_header header n" and n: "int (length sp) = n"
    by (simp_all add: b good_block_def)
  show ?thesis
  proof (cases "map_of d k")
    case None
    have "entry_consistent (k, header # k # sp)"
      using hdr n by (simp add: entry_consistent_def)
    with assms(1) have "consistent (AList.update k (header # k # sp) d)"
      by (rule consistent_update)
    with None show ?thesis by (simp add: b store_block_new)
  next
    case (Some val)
    then have mem: "(k, val) \<in> set d" by (rule map_of_SomeD)
    with assms(1) have ec: "entry_consistent (k, val)"
      by (auto simp: consistent_def list_all_iff)
    then obtain h ls where val: "val = h # k # ls"
      by (cases val; cases "tl val") (auto simp: entry_consistent_def)
    from ec have sh: "std_header h (int (length ls))"
      by (simp add: val entry_consistent_def)
    from mem have "length ls \<le> length (data_lines d)"
      using entry_le_data_lines [of k val d] by (simp add: val)
    with assms(3) n have bound: "int (length ls) + n < 10 ^ 8"
      by (auto simp: b block_data_def)
    note m1 = merge_store [OF Some [unfolded val] sh, of header n sp]
    note m2 = merge_header_std [OF sh n disjI1 [OF bound]]
    have "entry_consistent
        (k, rebuild_header h (int (length ls)) (n + int (length ls)) # k # sort (ls @ sp))"
      using m2 by (simp add: entry_consistent_def)
    with assms(1) have "consistent (AList.update k
        (rebuild_header h (int (length ls)) (n + int (length ls)) # k # sort (ls @ sp)) d)"
      by (rule consistent_update)
    with m1 show ?thesis by (simp add: b)
  qed
qed

lemma store_all_consistent:
  "consistent d \<Longrightarrow> list_all good_block bs \<Longrightarrow>
   length (data_lines d) + length (concat (map block_data bs)) < 10 ^ 8 \<Longrightarrow>
   \<exists>d'. store_all d bs = Inr d' \<and> consistent d'"
proof (induction bs arbitrary: d)
  case Nil
  then show ?case by simp
next
  case (Cons b bs)
  from Cons.prems have "length (data_lines d) + length (block_data b) < 10 ^ 8"
    by simp
  with Cons.prems(1,2) obtain d1 where s: "store_block d b = Inr d1" and c: "consistent d1"
    using store_block_consistent [of d b] by auto
  have "mset (data_lines d1) = mset (data_lines d) + mset (block_data b)"
    using consistent_dict_ok [OF Cons.prems(1)] s by (rule store_block_data_lines)
  then have "size (mset (data_lines d1)) = size (mset (data_lines d) + mset (block_data b))"
    by simp
  then have "length (data_lines d1) = length (data_lines d) + length (block_data b)"
    by simp
  with Cons.prems(3) have "length (data_lines d1) + length (concat (map block_data bs)) < 10 ^ 8"
    by simp
  with Cons.IH [OF c] Cons.prems(2) obtain d' where "store_all d1 bs = Inr d'" "consistent d'"
    by auto
  with s show ?case by simp
qed

lemma consistent_counts:
  assumes "consistent d"
  shows "list_all (\<lambda>(k, val). declared_count (val ! 0) = Inr (int (length (drop 2 val)))) d"
  using assms
  by (auto simp: consistent_def list_all_iff entry_consistent_def dest!: bspec intro: std_header_count)

text \<open>
  C1 (as amended). Take a merge in which the stored header has the standard layout and
  declares as many lines as are stored, the block read holds as many data lines as it
  declares, and the sum of the two counts is below \<open>10 ^ 8\<close> (or below \<open>10 ^ 9\<close> when
  character 26 of the stored header is whitespace). Then the merge succeeds, the data
  lines of the merged block are as many as the sum of the two declared counts, token 4
  of the rebuilt header parses to that sum, and the rebuilt header has the standard
  layout again. Consequently, when every listed file is walked to its end, every block
  read has a header of the standard layout and as many data lines as it declares, and
  fewer than \<open>10 ^ 8\<close> data lines are read in all, the run reads all files without failure
  and every block of the final accumulator has as many lines as its header declares.
\<close>

theorem counts_stay_consistent:
  "(map_of d atomic_sym = Some (stored # k # ls) \<and> std_header stored (int (length ls)) \<and>
    int (length sp) = atomic_lines \<and>
    (int (length ls) + atomic_lines < 10 ^ 8 \<or>
     (int (length ls) + atomic_lines < 10 ^ 9 \<and> is_space (stored ! 26))) \<longrightarrow>
      (\<exists>d' header' lines'.
         store_block d (header, atomic_sym, atomic_lines, sp) = Inr d' \<and>
         map_of d' atomic_sym = Some (header' # k # lines') \<and>
         declared_count stored = Inr (int (length ls)) \<and>
         int (length lines') = int (length ls) + atomic_lines \<and>
         declared_count header' = Inr (int (length ls) + atomic_lines) \<and>
         std_header header' (int (length lines')))) \<and>
   (dir_blocks fs input_folder listing bs \<and> list_all good_block bs \<and>
    length (concat (map block_data bs)) < 10 ^ 8 \<longrightarrow>
      (\<exists>d'. read_all fs input_folder listing [] = Some (Inr d') \<and> consistent d' \<and>
         list_all (\<lambda>(k, val). declared_count (val ! 0) = Inr (int (length (drop 2 val)))) d'))"
proof (intro conjI impI)
  assume a: "map_of d atomic_sym = Some (stored # k # ls) \<and> std_header stored (int (length ls)) \<and>
    int (length sp) = atomic_lines \<and>
    (int (length ls) + atomic_lines < 10 ^ 8 \<or>
     (int (length ls) + atomic_lines < 10 ^ 9 \<and> is_space (stored ! 26)))"
  let ?h = "rebuild_header stored (int (length ls)) (atomic_lines + int (length ls))"
  from a have m: "store_block d (header, atomic_sym, atomic_lines, sp) =
      Inr (AList.update atomic_sym (?h # k # sort (ls @ sp)) d)"
    using merge_store [of d atomic_sym stored k ls header atomic_lines sp] by blast
  from a have s: "std_header ?h (int (length (sort (ls @ sp))))"
    using merge_header_std [of stored ls sp atomic_lines] by blast
  from a have len: "int (length (sort (ls @ sp))) = int (length ls) + atomic_lines" by auto
  from s have "declared_count ?h = Inr (int (length (sort (ls @ sp))))"
    by (rule std_header_count)
  with len have c: "declared_count ?h = Inr (int (length ls) + atomic_lines)" by simp
  from a have c0: "declared_count stored = Inr (int (length ls))"
    by (auto intro: std_header_count)
  show "\<exists>d' header' lines'.
         store_block d (header, atomic_sym, atomic_lines, sp) = Inr d' \<and>
         map_of d' atomic_sym = Some (header' # k # lines') \<and>
         declared_count stored = Inr (int (length ls)) \<and>
         int (length lines') = int (length ls) + atomic_lines \<and>
         declared_count header' = Inr (int (length ls) + atomic_lines) \<and>
         std_header header' (int (length lines'))"
    using m s len c c0
    by (intro exI [of _ "AList.update atomic_sym (?h # k # sort (ls @ sp)) d"]
        exI [of _ ?h] exI [of _ "sort (ls @ sp)"]) (simp add: update_conv')
next
  assume a: "dir_blocks fs input_folder listing bs \<and> list_all good_block bs \<and>
    length (concat (map block_data bs)) < 10 ^ 8"
  have "consistent []" by (simp add: consistent_def)
  moreover have "length (data_lines []) + length (concat (map block_data bs)) < 10 ^ 8"
    using a by (simp add: data_lines_def)
  ultimately obtain d' where s: "store_all [] bs = Inr d'" and c: "consistent d'"
    using a store_all_consistent [of "[]" bs] by blast
  from a s have "read_all fs input_folder listing [] = Some (Inr d')"
    using read_all_dir_blocks [of fs input_folder listing bs "[]"] by simp
  with c consistent_counts [OF c]
  show "\<exists>d'. read_all fs input_folder listing [] = Some (Inr d') \<and> consistent d' \<and>
         list_all (\<lambda>(k, val). declared_count (val ! 0) = Inr (int (length (drop 2 val)))) d'"
    by blast
qed

text \<open>
  Witness: a stored block of two lines and a block of one line under the same element
  line, as a single merge and as a run over two files.
\<close>

theorem counts_stay_consistent_witness:
  "map_of [(''Fe I\<newline>'', [''x 26.0000 y          1              2\<newline>'', ''Fe I\<newline>'', ''b\<newline>'', ''a\<newline>''])] ''Fe I\<newline>'' =
     Some (''x 26.0000 y          1              2\<newline>'' # ''Fe I\<newline>'' # [''b\<newline>'', ''a\<newline>'']) \<and>
   std_header ''x 26.0000 y          1              2\<newline>'' (int (length [''b\<newline>'', ''a\<newline>''])) \<and>
   int (length [''c\<newline>'']) = 1 \<and>
   int (length [''b\<newline>'', ''a\<newline>'']) + 1 < 10 ^ 8 \<and>
   (\<exists>d' header' lines'.
      store_block [(''Fe I\<newline>'', [''x 26.0000 y          1              2\<newline>'', ''Fe I\<newline>'', ''b\<newline>'', ''a\<newline>''])]
        (''x 26.0000 y          1              1\<newline>'', ''Fe I\<newline>'', 1, [''c\<newline>'']) = Inr d' \<and>
      map_of d' ''Fe I\<newline>'' = Some (header' # ''Fe I\<newline>'' # lines') \<and>
      declared_count ''x 26.0000 y          1              2\<newline>'' = Inr (int (length [''b\<newline>'', ''a\<newline>''])) \<and>
      int (length lines') = int (length [''b\<newline>'', ''a\<newline>'']) + 1 \<and>
      declared_count header' = Inr (int (length [''b\<newline>'', ''a\<newline>'']) + 1) \<and>
      std_header header' (int (length lines'))) \<and>
   dir_blocks (plain [''d/a'' \<mapsto> ''x 26.0000 y          1              2\<newline>Fe I\<newline>b\<newline>a\<newline>'',
               ''d/b'' \<mapsto> ''x 26.0000 y          1              1\<newline>Fe I\<newline>c\<newline>'']) ''d'' [''a'', ''b'']
     ([(''x 26.0000 y          1              2\<newline>'', ''Fe I\<newline>'', 2, [''b\<newline>'', ''a\<newline>''])] @
      [(''x 26.0000 y          1              1\<newline>'', ''Fe I\<newline>'', 1, [''c\<newline>''])] @ []) \<and>
   list_all good_block
     ([(''x 26.0000 y          1              2\<newline>'', ''Fe I\<newline>'', 2, [''b\<newline>'', ''a\<newline>''])] @
      [(''x 26.0000 y          1              1\<newline>'', ''Fe I\<newline>'', 1, [''c\<newline>''])] @ []) \<and>
   (\<exists>d'. read_all (plain [''d/a'' \<mapsto> ''x 26.0000 y          1              2\<newline>Fe I\<newline>b\<newline>a\<newline>'',
                     ''d/b'' \<mapsto> ''x 26.0000 y          1              1\<newline>Fe I\<newline>c\<newline>'']) ''d'' [''a'', ''b''] [] =
           Some (Inr d') \<and> consistent d' \<and>
         list_all (\<lambda>(k, val). declared_count (val ! 0) = Inr (int (length (drop 2 val)))) d')"
proof -
  let ?ta = "''x 26.0000 y          1              2\<newline>Fe I\<newline>b\<newline>a\<newline>''"
  let ?tb = "''x 26.0000 y          1              1\<newline>Fe I\<newline>c\<newline>''"
  let ?H = "''x 26.0000 y          1              2\<newline>''"
  let ?H1 = "''x 26.0000 y          1              1\<newline>''"
  let ?K = "''Fe I\<newline>''"
  let ?fs = "(plain [''d/a'' \<mapsto> ?ta, ''d/b'' \<mapsto> ?tb])"
  let ?ba = "(?H, ?K, 2, [''b\<newline>'', ''a\<newline>''])"
  let ?bb = "(?H1, ?K, 1, [''c\<newline>''])"
  let ?d = "[(?K, [?H, ?K, ''b\<newline>'', ''a\<newline>''])]"
  have A1: "map_of ?d ?K = Some (?H # ?K # [''b\<newline>'', ''a\<newline>''])" by simp
  have A2: "std_header ?H (int (length [''b\<newline>'', ''a\<newline>'']))" by code_simp
  have A3: "int (length [''c\<newline>'']) = 1" by simp
  have A4: "int (length [''b\<newline>'', ''a\<newline>'']) + 1 < 10 ^ 8" by simp
  have a1: "open_read ?fs (path_join ''d'' ''a'') = Some ?ta" by (simp add: path_join_def open_read_plain)
  have la: "(1::int) < int (length (readlines ?ta))" by code_simp
  have rba: "read_block (readlines ?ta) 1 = Inr (?ba, 5)" by code_simp
  have a2: "reads (readlines ?ta) 1 [?ba] 5" by (rule reads_step [OF la rba reads_done])
  have a3: "\<not> 5 < int (length (readlines ?ta))" by code_simp
  have b1: "open_read ?fs (path_join ''d'' ''b'') = Some ?tb" by (simp add: path_join_def open_read_plain)
  have lb: "(1::int) < int (length (readlines ?tb))" by code_simp
  have rbb: "read_block (readlines ?tb) 1 = Inr (?bb, 4)" by code_simp
  have b2: "reads (readlines ?tb) 1 [?bb] 4" by (rule reads_step [OF lb rbb reads_done])
  have b3: "\<not> 4 < int (length (readlines ?tb))" by code_simp
  have "dir_blocks ?fs ''d'' [''b''] ([?bb] @ [])"
    using b1 b2 b3 dir_done by (rule dir_step)
  with a1 a2 a3 have B1: "dir_blocks ?fs ''d'' [''a'', ''b''] ([?ba] @ [?bb] @ [])"
    by (rule dir_step)
  have B2: "list_all good_block ([?ba] @ [?bb] @ [])" by code_simp
  have B3: "length (concat (map block_data ([?ba] @ [?bb] @ []))) < 10 ^ 8"
    by (simp add: block_data_def)
  note t = counts_stay_consistent [where d = ?d and atomic_sym = ?K and stored = ?H and k = ?K
      and ls = "[''b\<newline>'', ''a\<newline>'']" and sp = "[''c\<newline>'']" and atomic_lines = 1
      and header = ?H1 and fs = ?fs and input_folder = "''d''" and listing = "[''a'', ''b'']"
      and bs = "[?ba] @ [?bb] @ []"]
  note c1 = mp [OF t [THEN conjunct1] conjI [OF A1 conjI [OF A2 conjI [OF A3 disjI1 [OF A4]]]]]
  note c2 = mp [OF t [THEN conjunct2] conjI [OF B1 conjI [OF B2 B3]]]
  show ?thesis
    by (intro conjI) (rule A1 A2 A3 A4 c1 B1 B2 c2)+
qed

text \<open>
  The claim as stated fails in two ways. A first file declares five lines and holds
  one, a second file adds one line: the rebuilt header declares six lines and the block
  holds two. And with headers that carry the count among their first 27 characters, the
  count is not rewritten: after a block of two lines and a block of one line are merged,
  token 4 of the header still parses to two.
\<close>

theorem counts_counterexample:
  "read_all (plain [''d/a'' \<mapsto> ''x 26.0000 y          1              5\<newline>Fe I\<newline>a\<newline>'',
             ''d/b'' \<mapsto> ''x 26.0000 y          1              1\<newline>Fe I\<newline>c\<newline>''])
     ''d'' [''a'', ''b''] [] =
     Some (Inr [(''Fe I\<newline>'', [''x 26.0000 y          1             6\<newline>'', ''Fe I\<newline>'', ''a\<newline>'', ''c\<newline>''])]) \<and>
   declared_count ''x 26.0000 y          1              5\<newline>'' = Inr 5 \<and>
   declared_count ''x 26.0000 y          1              1\<newline>'' = Inr 1 \<and>
   declared_count ''x 26.0000 y          1             6\<newline>'' = Inr 6 \<and>
   int (length [''a\<newline>'', ''c\<newline>'']) \<noteq> 5 + 1 \<and>
   read_all (plain [''d/a'' \<mapsto> ''a b c d 2\<newline>Fe I\<newline>x\<newline>y\<newline>'',
             ''d/b'' \<mapsto> ''a b c d 1\<newline>Fe I\<newline>z\<newline>''])
     ''d'' [''a'', ''b''] [] =
     Some (Inr [(''Fe I\<newline>'', [''a b c d 2\<newline>          '', ''Fe I\<newline>'', ''x\<newline>'', ''y\<newline>'', ''z\<newline>''])]) \<and>
   declared_count ''a b c d 2\<newline>'' = Inr 2 \<and>
   declared_count ''a b c d 1\<newline>'' = Inr 1 \<and>
   declared_count ''a b c d 2\<newline>          '' = Inr 2 \<and>
   (2::int) \<noteq> 2 + 1"
  by code_simp

end
